theory Spec2Isabelle
  imports Main "HOL-Library.Word"
begin

unbundle bit_operations_syntax

section \<open>Bounded ring-buffer queues: the data model\<close>

text \<open>
  The two source files declare the class templates \<^verbatim>\<open>SpscQueue<T>\<close> (spsc_queue.cc) and
  \<^verbatim>\<open>MpscQueue<T>\<close> (mpsc_queue_experimental.cpp). Both hold a \<^verbatim>\<open>std::vector<T> buffer_\<close>
  and two cursors \<^verbatim>\<open>head_\<close> and \<^verbatim>\<open>tail_\<close> of type \<^verbatim>\<open>std::atomic<size_t>\<close>. The SPSC
  class adds the plain \<^verbatim>\<open>size_t\<close> members \<^verbatim>\<open>head_cached_\<close> and \<^verbatim>\<open>tail_cached_\<close>, the
  MPSC class an atomic \<^verbatim>\<open>count_\<close> that no member function touches.

  \<^verbatim>\<open>size_t\<close> is the 64-bit unsigned integer of the Linux target the files are written
  for: arithmetic wraps modulo \<open>2 ^ 64\<close> and a comparison with \<open>0\<close> is unsigned.
  The three members the classes share are one record; each class extends it by its own
  members. The trailing underscores of the member names are dropped.
\<close>

type_synonym size_t = "64 word"

record 'a ring =
  buffer :: "'a list"
  head :: size_t
  tail :: size_t

record 'a spsc_queue = "'a ring" +
  head_cached :: size_t
  tail_cached :: size_t

record 'a mpsc_queue = "'a ring" +
  count :: size_t

text \<open>
  What a call can end in besides a return value: the exception of the constructors, and
  the two undefined behaviours the member functions can run into (the remainder of a
  division by zero when the vector is empty, and \<^verbatim>\<open>operator[]\<close> past the end).
\<close>

datatype error = InvalidArgument string | DivisionByZero | OutOfBounds

text \<open>\<^verbatim>\<open>buffer_.size()\<close>, a \<^verbatim>\<open>size_t\<close>.\<close>

definition vector_size :: "'a list \<Rightarrow> size_t" where
  "vector_size xs = word_of_nat (length xs)"

section \<open>The single-producer single-consumer queue\<close>

text \<open>
  \<^verbatim>\<open>SpscQueue(size_t capacity) : buffer_(capacity + 1)\<close>. The vector is built first, with
  \<open>capacity + 1\<close> value-initialised elements; \<open>z\<close> is that value \<^verbatim>\<open>T()\<close>. The body
  then tests \<^verbatim>\<open>capacity + 1 < 0\<close> on \<^verbatim>\<open>size_t\<close>. Allocation is taken to succeed.
\<close>

definition SpscQueue :: "size_t \<Rightarrow> 'a \<Rightarrow> error + 'a spsc_queue" where
  "SpscQueue capacity z =
     (let buf = replicate (unat (capacity + 1)) z in
      if capacity + 1 < 0 then Inl (InvalidArgument ''capacity too big'')
      else Inr \<lparr>buffer = buf, head = 0, tail = 0, head_cached = 0, tail_cached = 0\<rparr>)"

text \<open>Lines 38 to 40 of \<^verbatim>\<open>enqueue\<close>: the slot write, the release store of the tail.\<close>

definition spsc_publish :: "'a spsc_queue \<Rightarrow> size_t \<Rightarrow> size_t \<Rightarrow> 'a \<Rightarrow> error + bool \<times> 'a spsc_queue" where
  "spsc_publish q t next_t item =
     (if unat t < length (buffer q)
      then Inr (True, q\<lparr>buffer := (buffer q)[unat t := item], tail := next_t\<rparr>)
      else Inl OutOfBounds)"

definition spsc_enqueue :: "'a spsc_queue \<Rightarrow> 'a \<Rightarrow> error + bool \<times> 'a spsc_queue" where
  "spsc_enqueue q item =
     (let t = tail q in
      if vector_size (buffer q) = 0 then Inl DivisionByZero
      else
        let next_t = (t + 1) mod vector_size (buffer q) in
        if next_t = head_cached q then
          (let q1 = q\<lparr>head_cached := head q\<rparr> in
           if next_t = head_cached q1 then Inr (False, q1)
           else spsc_publish q1 t next_t item)
        else spsc_publish q t next_t item)"

text \<open>
  Lines 56 to 59 of \<^verbatim>\<open>dequeue\<close>: the slot read into the out-parameter, the next head,
  the release store of the head.
\<close>

definition spsc_consume :: "'a spsc_queue \<Rightarrow> size_t \<Rightarrow> error + bool \<times> 'a \<times> 'a spsc_queue" where
  "spsc_consume q h =
     (if unat h < length (buffer q) then
        (if vector_size (buffer q) = 0 then Inl DivisionByZero
         else Inr (True, buffer q ! unat h, q\<lparr>head := (h + 1) mod vector_size (buffer q)\<rparr>))
      else Inl OutOfBounds)"

text \<open>
  \<^verbatim>\<open>bool dequeue(T& item)\<close>: the out-parameter comes in with the caller's value and
  goes out as the second component of the result.
\<close>

definition spsc_dequeue :: "'a spsc_queue \<Rightarrow> 'a \<Rightarrow> error + bool \<times> 'a \<times> 'a spsc_queue" where
  "spsc_dequeue q item =
     (let h = head q in
      if h = tail_cached q then
        (let q1 = q\<lparr>tail_cached := tail q\<rparr> in
         if h = tail_cached q1 then Inr (False, item, q1)
         else spsc_consume q1 h)
      else spsc_consume q h)"

definition spsc_is_empty :: "'a spsc_queue \<Rightarrow> bool" where
  "spsc_is_empty q = (head q = tail q)"

section \<open>The multi-producer single-consumer queue, one thread at a time\<close>

text \<open>
  \<^verbatim>\<open>MpscQueue(size_t capacity) : buffer_(capacity + 1)\<close>, whose body tests
  \<^verbatim>\<open>capacity + 1 < 0 && (buffer_.size() & (buffer_.size() - 1)) == 0\<close> and then reads
  every slot once into a volatile local, which changes nothing.
\<close>

definition MpscQueue :: "size_t \<Rightarrow> 'a \<Rightarrow> error + 'a mpsc_queue" where
  "MpscQueue capacity z =
     (let buf = replicate (unat (capacity + 1)) z in
      if capacity + 1 < 0 \<and> (vector_size buf AND (vector_size buf - 1)) = 0
      then Inl (InvalidArgument ''capacity too big'')
      else Inr \<lparr>buffer = buf, head = 0, tail = 0, count = 0\<rparr>)"

text \<open>
  \<^verbatim>\<open>obj.compare_exchange_strong(expected, desired)\<close>: the result, the new value of the
  atomic object and the new value of \<open>expected\<close>.
\<close>

definition compare_exchange_strong :: "size_t \<Rightarrow> size_t \<Rightarrow> size_t \<Rightarrow> bool \<times> size_t \<times> size_t" where
  "compare_exchange_strong obj expected desired =
     (if obj = expected then (True, desired, expected) else (False, obj, obj))"

text \<open>
  \<^verbatim>\<open>enqueue\<close> run by one thread with no other thread between its steps. The
  \<^verbatim>\<open>do ... while\<close> loop is the recursion; the exchange then compares the tail with the
  value just loaded from it.
\<close>

function mpsc_enqueue :: "'a mpsc_queue \<Rightarrow> 'a \<Rightarrow> error + bool \<times> 'a mpsc_queue" where
  "mpsc_enqueue q item =
     (let t = tail q in
      if vector_size (buffer q) = 0 then Inl DivisionByZero
      else
        let next_t = (t + 1) mod vector_size (buffer q) in
        if next_t = head q then Inr (False, q)
        else
          let r = compare_exchange_strong (tail q) t next_t in
          if fst r then
            (if unat t < length (buffer q)
             then Inr (True, q\<lparr>buffer := (buffer q)[unat t := item], tail := fst (snd r)\<rparr>)
             else Inl OutOfBounds)
          else mpsc_enqueue (q\<lparr>tail := fst (snd r)\<rparr>) item)"
  by pat_completeness auto
termination
  by (relation "{}") (auto simp: compare_exchange_strong_def)

declare mpsc_enqueue.simps [simp del]

definition mpsc_dequeue :: "'a mpsc_queue \<Rightarrow> 'a \<Rightarrow> error + bool \<times> 'a \<times> 'a mpsc_queue" where
  "mpsc_dequeue q item =
     (let h = head q in
      if h = tail q then Inr (False, item, q)
      else if unat h < length (buffer q) then
        (if vector_size (buffer q) = 0 then Inl DivisionByZero
         else Inr (True, buffer q ! unat h, q\<lparr>head := (h + 1) mod vector_size (buffer q)\<rparr>))
      else Inl OutOfBounds)"

definition mpsc_is_empty :: "'a mpsc_queue \<Rightarrow> bool" where
  "mpsc_is_empty q = (head q = tail q)"

section \<open>Sequences of calls\<close>

text \<open>
  A caller's straight-line sequence of calls on one queue: \<open>Enqueue x\<close> is
  \<^verbatim>\<open>q.enqueue(x)\<close>, and \<open>Dequeue y\<close> is \<^verbatim>\<open>q.dequeue(item)\<close> with \<open>y\<close> the value the
  caller's variable holds before the call. The outcome of a call is the boolean it
  returns and, for a dequeue, the variable afterwards. A sequence stops at the first
  call that does not return.
\<close>

datatype 'a call = Enqueue 'a | Dequeue 'a

datatype 'a outcome = Enqueued bool | Dequeued bool 'a

definition spsc_call :: "'a spsc_queue \<Rightarrow> 'a call \<Rightarrow> error + 'a outcome \<times> 'a spsc_queue" where
  "spsc_call q c =
     (case c of
        Enqueue x \<Rightarrow>
          (case spsc_enqueue q x of Inl e \<Rightarrow> Inl e | Inr (b, q') \<Rightarrow> Inr (Enqueued b, q'))
      | Dequeue y \<Rightarrow>
          (case spsc_dequeue q y of Inl e \<Rightarrow> Inl e | Inr (b, y', q') \<Rightarrow> Inr (Dequeued b y', q')))"

definition mpsc_call :: "'a mpsc_queue \<Rightarrow> 'a call \<Rightarrow> error + 'a outcome \<times> 'a mpsc_queue" where
  "mpsc_call q c =
     (case c of
        Enqueue x \<Rightarrow>
          (case mpsc_enqueue q x of Inl e \<Rightarrow> Inl e | Inr (b, q') \<Rightarrow> Inr (Enqueued b, q'))
      | Dequeue y \<Rightarrow>
          (case mpsc_dequeue q y of Inl e \<Rightarrow> Inl e | Inr (b, y', q') \<Rightarrow> Inr (Dequeued b y', q')))"

fun run :: "('q \<Rightarrow> 'c \<Rightarrow> error + 'r \<times> 'q) \<Rightarrow> 'q \<Rightarrow> 'c list \<Rightarrow> error + 'r list \<times> 'q" where
  "run f q [] = Inr ([], q)"
| "run f q (c # cs) =
     (case f q c of
        Inl e \<Rightarrow> Inl e
      | Inr (r, q') \<Rightarrow>
          (case run f q' cs of Inl e \<Rightarrow> Inl e | Inr (rs, q'') \<Rightarrow> Inr (r # rs, q'')))"

text \<open>The outcome of a call that is turned away: \<open>false\<close>, the caller's variable as it was.\<close>

fun rejected :: "'a call \<Rightarrow> 'a outcome" where
  "rejected (Enqueue x) = Enqueued False"
| "rejected (Dequeue y) = Dequeued False y"

section \<open>The ring as a bounded first-in first-out list\<close>

text \<open>
  The cursors of a well-formed ring lie inside a non-empty buffer whose length fits
  \<^verbatim>\<open>size_t\<close>. The slots from the head up to the tail, going round the end of the buffer,
  hold the items that were accepted and not yet handed out.
\<close>

definition ring_ok :: "('a, 'm) ring_scheme \<Rightarrow> bool" where
  "ring_ok q \<longleftrightarrow>
     0 < length (buffer q) \<and> length (buffer q) < 2 ^ 64 \<and>
     unat (head q) < length (buffer q) \<and> unat (tail q) < length (buffer q)"

text \<open>The number of steps from cursor \<open>a\<close> forward to cursor \<open>b\<close> in a ring of \<open>L\<close> slots.\<close>

definition ring_distance :: "nat \<Rightarrow> size_t \<Rightarrow> size_t \<Rightarrow> nat" where
  "ring_distance L a b = (unat b + L - unat a) mod L"

definition stored :: "('a, 'm) ring_scheme \<Rightarrow> nat" where
  "stored q = ring_distance (length (buffer q)) (head q) (tail q)"

definition contents :: "('a, 'm) ring_scheme \<Rightarrow> 'a list" where
  "contents q =
     map (\<lambda>i. buffer q ! ((unat (head q) + i) mod length (buffer q))) [0..<stored q]"

text \<open>
  The mirrors of the SPSC queue are earlier values of the peer's cursor: the cached head
  is at or behind the head, so the producer sees at least as many occupied slots as there
  are; the cached tail is at or behind the tail, so the consumer sees at most as many.
\<close>

definition cache_ok :: "'a spsc_queue \<Rightarrow> bool" where
  "cache_ok q \<longleftrightarrow>
     unat (head_cached q) < length (buffer q) \<and> unat (tail_cached q) < length (buffer q) \<and>
     stored q \<le> ring_distance (length (buffer q)) (head_cached q) (tail q) \<and>
     ring_distance (length (buffer q)) (head q) (tail_cached q) \<le> stored q"

definition spsc_inv :: "'a spsc_queue \<Rightarrow> bool" where
  "spsc_inv q \<longleftrightarrow> ring_ok q \<and> cache_ok q"

text \<open>
  The bounded first-in first-out queue of the specification, as a list: an enqueue is
  accepted while fewer than \<open>cap\<close> items are held, a dequeue hands out the oldest item.
\<close>

fun bounded_call :: "nat \<Rightarrow> 'a list \<Rightarrow> 'a call \<Rightarrow> 'a outcome \<times> 'a list" where
  "bounded_call cap xs (Enqueue x) =
     (if length xs < cap then (Enqueued True, xs @ [x]) else (Enqueued False, xs))"
| "bounded_call cap xs (Dequeue y) =
     (case xs of [] \<Rightarrow> (Dequeued False y, []) | a # as \<Rightarrow> (Dequeued True a, as))"

fun bounded_run :: "nat \<Rightarrow> 'a list \<Rightarrow> 'a call list \<Rightarrow> 'a outcome list \<times> 'a list" where
  "bounded_run cap xs [] = ([], xs)"
| "bounded_run cap xs (c # cs) =
     (let (r, xs') = bounded_call cap xs c;
          (rs, xs'') = bounded_run cap xs' cs
      in (r # rs, xs''))"

section \<open>The SPSC queue without the cached cursors\<close>

text \<open>
  The reference the cached cursors are measured against: \<^verbatim>\<open>enqueue\<close> and \<^verbatim>\<open>dequeue\<close>
  as they are, but with the full and empty tests reading the peer's real cursor. Two
  results agree when both fail alike or both return the same boolean (and item) and leave
  the same buffer, head and tail.
\<close>

definition ref_enqueue :: "'a spsc_queue \<Rightarrow> 'a \<Rightarrow> error + bool \<times> 'a spsc_queue" where
  "ref_enqueue q item =
     (let t = tail q in
      if vector_size (buffer q) = 0 then Inl DivisionByZero
      else
        let next_t = (t + 1) mod vector_size (buffer q) in
        if next_t = head q then Inr (False, q)
        else spsc_publish q t next_t item)"

definition ref_dequeue :: "'a spsc_queue \<Rightarrow> 'a \<Rightarrow> error + bool \<times> 'a \<times> 'a spsc_queue" where
  "ref_dequeue q item =
     (let h = head q in
      if h = tail q then Inr (False, item, q)
      else spsc_consume q h)"

definition same_ring :: "('a, 'm) ring_scheme \<Rightarrow> ('a, 'n) ring_scheme \<Rightarrow> bool" where
  "same_ring p q \<longleftrightarrow> buffer p = buffer q \<and> head p = head q \<and> tail p = tail q"

definition agree_enqueue ::
  "error + bool \<times> 'a spsc_queue \<Rightarrow> error + bool \<times> 'a spsc_queue \<Rightarrow> bool" where
  "agree_enqueue r s =
     (case r of
        Inl e \<Rightarrow> s = Inl e
      | Inr (b, p) \<Rightarrow> (case s of Inl e \<Rightarrow> False | Inr (c, q) \<Rightarrow> b = c \<and> same_ring p q))"

definition agree_dequeue ::
  "error + bool \<times> 'a \<times> 'a spsc_queue \<Rightarrow> error + bool \<times> 'a \<times> 'a spsc_queue \<Rightarrow> bool" where
  "agree_dequeue r s =
     (case r of
        Inl e \<Rightarrow> s = Inl e
      | Inr (b, x, p) \<Rightarrow>
          (case s of Inl e \<Rightarrow> False | Inr (c, y, q) \<Rightarrow> b = c \<and> x = y \<and> same_ring p q))"

text \<open>
  A queue over an empty buffer, as the constructor makes it when \<open>capacity + 1\<close> wraps to
  \<open>0\<close>: nothing can be stored in it and its cursors never move.
\<close>

definition spsc_degenerate :: "'a spsc_queue \<Rightarrow> bool" where
  "spsc_degenerate q \<longleftrightarrow> buffer q = [] \<and> head q = tail q \<and> tail_cached q = tail q"

definition spsc_reachable_inv :: "'a spsc_queue \<Rightarrow> bool" where
  "spsc_reachable_inv q \<longleftrightarrow> spsc_inv q \<or> spsc_degenerate q"

section \<open>The MPSC queue, one shared access at a time\<close>

text \<open>
  With several threads on one queue the calls of \<^verbatim>\<open>MpscQueue\<close> do not run one after the
  other: between two accesses of a call to the shared members another thread may run. A
  call in progress is a frame: where it stands and its local variables. A step performs
  the code up to and including the next access to \<^verbatim>\<open>head_\<close>, \<^verbatim>\<open>tail_\<close> or a slot of
  \<^verbatim>\<open>buffer_\<close>. Steps of different threads are interleaved in one global order.

  \<^verbatim>\<open>enqueue\<close>: line 37 loads the tail; lines 38 to 43 compute the next tail, load the head
  and return false when they are equal; line 46 is the compare-and-exchange on the tail,
  back to line 37 when it fails; line 48 writes the slot; line 49 returns true.
\<close>

datatype enqueue_pc =
  E_load_tail | E_check_full | E_exchange | E_write | E_return bool | E_fault error

record 'a enqueue_frame =
  e_pc :: enqueue_pc
  e_item :: 'a
  e_t :: size_t
  e_next_t :: size_t

text \<open>
  \<^verbatim>\<open>dequeue\<close>: line 55 loads the head; line 58 loads the tail and returns false when it
  equals the head; line 62 reads the slot into the out-parameter; lines 63 and 64 store
  the next head; line 65 returns true.
\<close>

datatype dequeue_pc =
  D_load_head | D_check_empty | D_read | D_store | D_return bool | D_fault error

record 'a dequeue_frame =
  d_pc :: dequeue_pc
  d_item :: 'a
  d_h :: size_t

definition enqueue_step :: "'a mpsc_queue \<Rightarrow> 'a enqueue_frame \<Rightarrow> 'a mpsc_queue \<times> 'a enqueue_frame" where
  "enqueue_step q f =
     (case e_pc f of
        E_load_tail \<Rightarrow> (q, f\<lparr>e_pc := E_check_full, e_t := tail q\<rparr>)
      | E_check_full \<Rightarrow>
          if vector_size (buffer q) = 0 then (q, f\<lparr>e_pc := E_fault DivisionByZero\<rparr>)
          else
            let next_t = (e_t f + 1) mod vector_size (buffer q) in
            if next_t = head q then (q, f\<lparr>e_pc := E_return False, e_next_t := next_t\<rparr>)
            else (q, f\<lparr>e_pc := E_exchange, e_next_t := next_t\<rparr>)
      | E_exchange \<Rightarrow>
          let r = compare_exchange_strong (tail q) (e_t f) (e_next_t f) in
          if fst r then (q\<lparr>tail := fst (snd r)\<rparr>, f\<lparr>e_pc := E_write\<rparr>)
          else (q\<lparr>tail := fst (snd r)\<rparr>, f\<lparr>e_pc := E_load_tail, e_t := snd (snd r)\<rparr>)
      | E_write \<Rightarrow>
          if unat (e_t f) < length (buffer q)
          then (q\<lparr>buffer := (buffer q)[unat (e_t f) := e_item f]\<rparr>, f\<lparr>e_pc := E_return True\<rparr>)
          else (q, f\<lparr>e_pc := E_fault OutOfBounds\<rparr>)
      | E_return b \<Rightarrow> (q, f)
      | E_fault e \<Rightarrow> (q, f))"

definition dequeue_step :: "'a mpsc_queue \<Rightarrow> 'a dequeue_frame \<Rightarrow> 'a mpsc_queue \<times> 'a dequeue_frame" where
  "dequeue_step q f =
     (case d_pc f of
        D_load_head \<Rightarrow> (q, f\<lparr>d_pc := D_check_empty, d_h := head q\<rparr>)
      | D_check_empty \<Rightarrow>
          if d_h f = tail q then (q, f\<lparr>d_pc := D_return False\<rparr>)
          else (q, f\<lparr>d_pc := D_read\<rparr>)
      | D_read \<Rightarrow>
          if unat (d_h f) < length (buffer q)
          then (q, f\<lparr>d_pc := D_store, d_item := buffer q ! unat (d_h f)\<rparr>)
          else (q, f\<lparr>d_pc := D_fault OutOfBounds\<rparr>)
      | D_store \<Rightarrow>
          if vector_size (buffer q) = 0 then (q, f\<lparr>d_pc := D_fault DivisionByZero\<rparr>)
          else (q\<lparr>head := (d_h f + 1) mod vector_size (buffer q)\<rparr>, f\<lparr>d_pc := D_return True\<rparr>)
      | D_return b \<Rightarrow> (q, f)
      | D_fault e \<Rightarrow> (q, f))"

text \<open>
  The frame at the start of a call. The locals \<^verbatim>\<open>t\<close>, \<^verbatim>\<open>next_t\<close> and \<^verbatim>\<open>h\<close> are written
  before they are read; they start as \<open>0\<close> here.
\<close>

definition enqueue_call :: "'a \<Rightarrow> 'a enqueue_frame" where
  "enqueue_call x = \<lparr>e_pc = E_load_tail, e_item = x, e_t = 0, e_next_t = 0\<rparr>"

definition dequeue_call :: "'a \<Rightarrow> 'a dequeue_frame" where
  "dequeue_call y = \<lparr>d_pc = D_load_head, d_item = y, d_h = 0\<rparr>"

text \<open>What a call has come to, once it has: its return value and the queue, or a fault.\<close>

definition enqueue_result :: "'a mpsc_queue \<times> 'a enqueue_frame \<Rightarrow> (error + bool \<times> 'a mpsc_queue) option" where
  "enqueue_result s =
     (case e_pc (snd s) of
        E_return b \<Rightarrow> Some (Inr (b, fst s))
      | E_fault e \<Rightarrow> Some (Inl e)
      | _ \<Rightarrow> None)"

definition dequeue_result :: "'a mpsc_queue \<times> 'a dequeue_frame \<Rightarrow> (error + bool \<times> 'a \<times> 'a mpsc_queue) option" where
  "dequeue_result s =
     (case d_pc (snd s) of
        D_return b \<Rightarrow> Some (Inr (b, d_item (snd s), fst s))
      | D_fault e \<Rightarrow> Some (Inl e)
      | _ \<Rightarrow> None)"

text \<open>
  Producer threads, each inside one call of \<^verbatim>\<open>enqueue\<close>, and the consumer thread inside
  one call of \<^verbatim>\<open>dequeue\<close>, on one queue. A schedule names the thread that takes the next
  step.
\<close>

record 'a system =
  queue :: "'a mpsc_queue"
  producers :: "'a enqueue_frame list"
  consumer :: "'a dequeue_frame"

datatype thread = Producer nat | Consumer

definition thread_step :: "'a system \<Rightarrow> thread \<Rightarrow> 'a system" where
  "thread_step s th =
     (case th of
        Producer i \<Rightarrow>
          if i < length (producers s) then
            (let (q', f') = enqueue_step (queue s) (producers s ! i)
             in s\<lparr>queue := q', producers := (producers s)[i := f']\<rparr>)
          else s
      | Consumer \<Rightarrow>
          (let (q', f') = dequeue_step (queue s) (consumer s)
           in s\<lparr>queue := q', consumer := f'\<rparr>))"

definition interleave :: "'a system \<Rightarrow> thread list \<Rightarrow> 'a system" where
  "interleave s ths = foldl thread_step s ths"

section \<open>Basic facts\<close>

lemma SpscQueue_eq:
  "SpscQueue c z =
     Inr \<lparr>buffer = replicate (unat (c + 1)) z, head = 0, tail = 0, head_cached = 0, tail_cached = 0\<rparr>"
  by (simp add: SpscQueue_def)

lemma MpscQueue_eq:
  "MpscQueue c z = Inr \<lparr>buffer = replicate (unat (c + 1)) z, head = 0, tail = 0, count = 0\<rparr>"
  by (simp add: MpscQueue_def)

text \<open>With no other thread around, the exchange succeeds at once and the loop body runs once.\<close>

lemma mpsc_enqueue_unfold:
  "mpsc_enqueue q item =
     (if vector_size (buffer q) = 0 then Inl DivisionByZero
      else if (tail q + 1) mod vector_size (buffer q) = head q then Inr (False, q)
      else if unat (tail q) < length (buffer q)
        then Inr (True, q\<lparr>buffer := (buffer q)[unat (tail q) := item],
                           tail := (tail q + 1) mod vector_size (buffer q)\<rparr>)
        else Inl OutOfBounds)"
  by (subst mpsc_enqueue.simps) (simp add: compare_exchange_strong_def Let_def)

lemma spsc_call_simps:
  "spsc_call q (Enqueue x) =
     (case spsc_enqueue q x of Inl e \<Rightarrow> Inl e | Inr (b, q') \<Rightarrow> Inr (Enqueued b, q'))"
  "spsc_call q (Dequeue y) =
     (case spsc_dequeue q y of Inl e \<Rightarrow> Inl e | Inr (b, y', q') \<Rightarrow> Inr (Dequeued b y', q'))"
  by (simp_all add: spsc_call_def)

lemma mpsc_call_simps:
  "mpsc_call q (Enqueue x) =
     (case mpsc_enqueue q x of Inl e \<Rightarrow> Inl e | Inr (b, q') \<Rightarrow> Inr (Enqueued b, q'))"
  "mpsc_call q (Dequeue y) =
     (case mpsc_dequeue q y of Inl e \<Rightarrow> Inl e | Inr (b, y', q') \<Rightarrow> Inr (Dequeued b y', q'))"
  by (simp_all add: mpsc_call_def)

section \<open>Cursor arithmetic\<close>

lemma vs_unat: "length xs < 2 ^ 64 \<Longrightarrow> unat (vector_size xs) = length xs"
  by (simp add: vector_size_def unat_of_nat)

lemma vs_zero: "length xs < 2 ^ 64 \<Longrightarrow> vector_size xs = 0 \<longleftrightarrow> xs = []"
  using vs_unat [of xs] by (auto simp: vector_size_def)

lemma unat_succ: 
  fixes t :: size_t
  assumes "unat t < L" "L < 2 ^ 64"
  shows "unat (t + 1) = unat t + 1"
proof -
  have "unat t + unat (1 :: size_t) < 2 ^ LENGTH(64)" using assms by simp
  then show ?thesis by (simp add: unat_add_lem [THEN iffD1])
qed

lemma next_unat:
  fixes t :: size_t
  assumes "unat t < length xs" "length xs < 2 ^ 64"
  shows "unat ((t + 1) mod vector_size xs) = (if unat t + 1 = length xs then 0 else unat t + 1)"
  using assms by (simp add: unat_mod vs_unat unat_succ [of t "length xs"])

lemma nat_ring_distance:
  fixes a b L :: nat
  assumes "a < L" "b < L"
  shows "(b + L - a) mod L = (if a \<le> b then b - a else b + L - a)"
proof (cases "a \<le> b")
  case True
  then have "b + L - a = (b - a) + L" by simp
  then have "(b + L - a) mod L = (b - a) mod L" by simp
  with True assms show ?thesis by simp
next
  case False
  with assms show ?thesis by simp
qed

lemma nat_ring_slot:
  fixes a i L :: nat
  assumes "a < L" "i < L"
  shows "(a + i) mod L = (if a + i < L then a + i else a + i - L)"
proof (cases "a + i < L")
  case True
  then show ?thesis by simp
next
  case False
  then have "(a + i) mod L = (a + i - L) mod L" by (simp add: le_mod_geq)
  moreover have "a + i - L < L" using assms by arith
  ultimately show ?thesis using False by simp
qed

lemma ring_distance_alt:
  assumes "unat a < L" "unat b < L"
  shows "ring_distance L a b = (if unat a \<le> unat b then unat b - unat a else unat b + L - unat a)"
  unfolding ring_distance_def using assms by (rule nat_ring_distance)

lemma ring_distance_less: "0 < L \<Longrightarrow> ring_distance L a b < L"
  by (simp add: ring_distance_def)

lemma ring_distance_0:
  assumes "unat a < L" "unat b < L"
  shows "ring_distance L a b = 0 \<longleftrightarrow> a = b"
proof -
  have "ring_distance L a b = 0 \<longleftrightarrow> unat a = unat b"
    unfolding ring_distance_alt [OF assms] using assms by arith
  then show ?thesis by (simp add: word_unat_eq_iff)
qed

lemma nat_slot_of_index:
  fixes a b i L :: nat
  assumes "a < L" "b < L" "i \<le> (if a \<le> b then b - a else b + L - a)"
  shows "((if a + i < L then a + i else a + i - L) = b) = (i = (if a \<le> b then b - a else b + L - a))"
  using assms by (cases "a \<le> b"; cases "a + i < L") auto

lemma slot_of_index:
  assumes "unat a < L" "unat b < L" "i \<le> ring_distance L a b"
  shows "(unat a + i) mod L = unat b \<longleftrightarrow> i = ring_distance L a b"
proof -
  have iL: "i < L" using assms ring_distance_less [of L a b] by arith
  have hyp: "i \<le> (if unat a \<le> unat b then unat b - unat a else unat b + L - unat a)"
    using assms(3) unfolding ring_distance_alt [OF assms(1,2)] .
  show ?thesis
    unfolding ring_distance_alt [OF assms(1,2)] nat_ring_slot [OF assms(1) iL]
    by (rule nat_slot_of_index [OF assms(1,2) hyp])
qed

lemma ring_distance_next_tail:
  assumes "unat a < L" "unat b < L" "unat b' = (if unat b + 1 = L then 0 else unat b + 1)"
    and "ring_distance L a b < L - 1"
  shows "ring_distance L a b' = ring_distance L a b + 1"
proof -
  have b': "unat b' < L" using assms by (auto split: if_splits)
  show ?thesis
    using assms(4) unfolding ring_distance_alt [OF assms(1,2)] ring_distance_alt [OF assms(1) b']
    using assms(1,2,3) by (cases "unat a \<le> unat b"; cases "unat b + 1 = L") auto
qed

lemma ring_distance_next_head:
  assumes "unat a < L" "unat b < L" "unat a' = (if unat a + 1 = L then 0 else unat a + 1)"
    and "0 < ring_distance L a b"
  shows "ring_distance L a' b = ring_distance L a b - 1"
proof -
  have a': "unat a' < L" using assms by (auto split: if_splits)
  show ?thesis
    using assms(4) unfolding ring_distance_alt [OF assms(1,2)] ring_distance_alt [OF a' assms(2)]
    using assms(1,2,3) by (cases "unat a \<le> unat b"; cases "unat a + 1 = L") auto
qed

lemma ring_distance_full:
  assumes "unat a < L" "unat b < L" "unat b' = (if unat b + 1 = L then 0 else unat b + 1)"
  shows "ring_distance L a b = L - 1 \<longleftrightarrow> b' = a"
proof -
  have "ring_distance L a b = L - 1 \<longleftrightarrow> unat b' = unat a"
    unfolding ring_distance_alt [OF assms(1,2)]
    using assms by (cases "unat a \<le> unat b"; cases "unat b + 1 = L") auto
  then show ?thesis by (simp add: word_unat_eq_iff)
qed

lemma next_unat_mod:
  fixes t :: size_t
  assumes "unat t < length xs" "length xs < 2 ^ 64"
  shows "unat ((t + 1) mod vector_size xs) = (unat t + 1) mod length xs"
  using assms by (simp add: unat_mod vs_unat unat_succ [of t "length xs"])

lemma ring_push:
  fixes q :: "('a, 'm) ring_scheme"
  assumes ok: "ring_ok q" and room: "stored q < length (buffer q) - 1"
    and q': "q' = q\<lparr>buffer := (buffer q)[unat (tail q) := x],
                     tail := (tail q + 1) mod vector_size (buffer q)\<rparr>"
  shows "ring_ok q'" and "stored q' = stored q + 1" and "contents q' = contents q @ [x]"
proof -
  let ?L = "length (buffer q)"
  from ok have h: "unat (head q) < ?L" and t: "unat (tail q) < ?L" and L: "?L < 2 ^ 64"
    by (simp_all add: ring_ok_def)
  have nt: "unat (tail q') = (if unat (tail q) + 1 = ?L then 0 else unat (tail q) + 1)"
    using next_unat [OF t L] by (simp add: q')
  then have t': "unat (tail q') < ?L" using t by (cases "unat (tail q) + 1 = ?L") auto
  show "ring_ok q'" using ok t' by (simp add: ring_ok_def q')
  have dist: "ring_distance ?L (head q) (tail q') = ring_distance ?L (head q) (tail q) + 1"
    using room by (intro ring_distance_next_tail [OF h t nt]) (simp add: stored_def)
  then show st: "stored q' = stored q + 1" by (simp add: stored_def q')
  have old: "buffer q' ! ((unat (head q) + i) mod ?L) = buffer q ! ((unat (head q) + i) mod ?L)"
    if "i < stored q" for i
  proof -
    have "(unat (head q) + i) mod ?L \<noteq> unat (tail q)"
      using slot_of_index [OF h t, of i] that by (simp add: stored_def)
    then show ?thesis by (simp add: q')
  qed
  have new: "buffer q' ! ((unat (head q) + stored q) mod ?L) = x"
  proof -
    have "(unat (head q) + stored q) mod ?L = unat (tail q)"
      using slot_of_index [OF h t, of "stored q"] by (simp add: stored_def)
    then show ?thesis using t by (simp add: q')
  qed
  have "contents q' =
      map (\<lambda>i. buffer q' ! ((unat (head q) + i) mod ?L)) [0..<stored q] @
      [buffer q' ! ((unat (head q) + stored q) mod ?L)]"
    by (simp add: contents_def st) (simp add: q')
  also have "map (\<lambda>i. buffer q' ! ((unat (head q) + i) mod ?L)) [0..<stored q] = contents q"
    unfolding contents_def by (rule map_cong) (simp_all add: old)
  finally show "contents q' = contents q @ [x]" by (simp add: new)
qed

lemma ring_pop:
  fixes q :: "('a, 'm) ring_scheme"
  assumes ok: "ring_ok q" and some: "0 < stored q"
    and q': "q' = q\<lparr>head := (head q + 1) mod vector_size (buffer q)\<rparr>"
  shows "ring_ok q'" and "stored q' = stored q - 1"
    and "contents q = buffer q ! unat (head q) # contents q'"
proof -
  let ?L = "length (buffer q)"
  from ok have h: "unat (head q) < ?L" and t: "unat (tail q) < ?L" and L: "?L < 2 ^ 64"
    by (simp_all add: ring_ok_def)
  have nh: "unat (head q') = (if unat (head q) + 1 = ?L then 0 else unat (head q) + 1)"
    using next_unat [OF h L] by (simp add: q')
  have nhm: "unat (head q') = (unat (head q) + 1) mod ?L"
    using next_unat_mod [OF h L] by (simp add: q')
  from nh have h': "unat (head q') < ?L" using h by (cases "unat (head q) + 1 = ?L") auto
  show "ring_ok q'" using ok h' by (simp add: ring_ok_def q')
  have "ring_distance ?L (head q') (tail q) = ring_distance ?L (head q) (tail q) - 1"
    using some by (intro ring_distance_next_head [OF h t nh]) (simp add: stored_def)
  then show st: "stored q' = stored q - 1" by (simp add: stored_def q')
  have slot: "(unat (head q') + i) mod ?L = (unat (head q) + Suc i) mod ?L" for i
    unfolding nhm by (simp add: mod_add_left_eq)
  have "contents q = map (\<lambda>i. buffer q ! ((unat (head q) + i) mod ?L)) (0 # [Suc 0..<stored q])"
    using some by (simp add: contents_def upt_conv_Cons)
  also have "[Suc 0..<stored q] = map Suc [0..<stored q - 1]"
    using some by (simp add: map_Suc_upt)
  finally have "contents q =
      buffer q ! unat (head q) #
      map (\<lambda>i. buffer q ! ((unat (head q) + Suc i) mod ?L)) [0..<stored q - 1]"
    using h by (simp add: comp_def)
  moreover have bq: "buffer q' = buffer q" by (simp add: q')
  have "contents q' = map (\<lambda>i. buffer q ! ((unat (head q) + Suc i) mod ?L)) [0..<stored q - 1]"
    unfolding contents_def st bq slot ..
  ultimately show "contents q = buffer q ! unat (head q) # contents q'"
    by simp
qed

lemma ring_empty: "ring_ok q \<Longrightarrow> stored q = 0 \<longleftrightarrow> head q = tail q"
  by (simp add: ring_ok_def stored_def ring_distance_0)

lemma ring_full:
  assumes "ring_ok q"
  shows "stored q = length (buffer q) - 1 \<longleftrightarrow> (tail q + 1) mod vector_size (buffer q) = head q"
proof -
  from assms have h: "unat (head q) < length (buffer q)" and t: "unat (tail q) < length (buffer q)"
    and L: "length (buffer q) < 2 ^ 64"
    by (simp_all add: ring_ok_def)
  show ?thesis
    unfolding stored_def by (rule ring_distance_full [OF h t next_unat [OF t L]])
qed

lemma stored_less: "ring_ok q \<Longrightarrow> stored q < length (buffer q)"
  by (simp add: ring_ok_def stored_def ring_distance_less)

lemma length_contents: "length (contents q) = stored q"
  by (simp add: contents_def)

section \<open>Each call acts on the ring as on the bounded list\<close>

lemma ring_ok_nonempty: "ring_ok q \<Longrightarrow> vector_size (buffer q) \<noteq> 0"
  by (auto simp: ring_ok_def vs_zero)

lemma stored_cache [simp]:
  "stored (q\<lparr>head_cached := a\<rparr>) = stored q" "stored (q\<lparr>tail_cached := b\<rparr>) = stored q"
  by (simp_all add: stored_def)

lemma contents_cache [simp]:
  "contents (q\<lparr>head_cached := a\<rparr>) = contents q" "contents (q\<lparr>tail_cached := b\<rparr>) = contents q"
  by (simp_all add: contents_def)

lemma ring_ok_cache [simp]:
  "ring_ok (q\<lparr>head_cached := a\<rparr>) = ring_ok q" "ring_ok (q\<lparr>tail_cached := b\<rparr>) = ring_ok q"
  by (simp_all add: ring_ok_def)

lemma spsc_refresh_head: "spsc_inv q \<Longrightarrow> spsc_inv (q\<lparr>head_cached := head q\<rparr>)"
  by (simp add: spsc_inv_def cache_ok_def ring_ok_def) (simp add: stored_def)

lemma spsc_refresh_tail: "spsc_inv q \<Longrightarrow> spsc_inv (q\<lparr>tail_cached := tail q\<rparr>)"
  by (simp add: spsc_inv_def cache_ok_def ring_ok_def) (simp add: stored_def)

lemma spsc_push:
  assumes inv: "spsc_inv q"
    and nf: "(tail q + 1) mod vector_size (buffer q) \<noteq> head_cached q"
    and q': "q' = q\<lparr>buffer := (buffer q)[unat (tail q) := x],
                     tail := (tail q + 1) mod vector_size (buffer q)\<rparr>"
  shows "stored q < length (buffer q) - 1" and "spsc_inv q'" and "contents q' = contents q @ [x]"
proof -
  let ?L = "length (buffer q)"
  from inv have ok: "ring_ok q" and c: "cache_ok q" by (simp_all add: spsc_inv_def)
  from ok have t: "unat (tail q) < ?L" and L: "?L < 2 ^ 64" and L0: "0 < ?L"
    by (simp_all add: ring_ok_def)
  from c have hc: "unat (head_cached q) < ?L"
    and le: "stored q \<le> ring_distance ?L (head_cached q) (tail q)"
    and tc: "ring_distance ?L (head q) (tail_cached q) \<le> stored q"
    by (simp_all add: cache_ok_def)
  have "ring_distance ?L (head_cached q) (tail q) \<noteq> ?L - 1"
    using ring_distance_full [OF hc t next_unat [OF t L]] nf by simp
  moreover have "ring_distance ?L (head_cached q) (tail q) < ?L"
    using L0 by (rule ring_distance_less)
  ultimately have croom: "ring_distance ?L (head_cached q) (tail q) < ?L - 1" by arith
  with le show room: "stored q < ?L - 1" by arith
  note push = ring_push [OF ok room q']
  show "contents q' = contents q @ [x]" by (rule push(3))
  have nt: "unat (tail q') = (if unat (tail q) + 1 = ?L then 0 else unat (tail q) + 1)"
    using next_unat [OF t L] by (simp add: q')
  have "ring_distance ?L (head_cached q) (tail q') = ring_distance ?L (head_cached q) (tail q) + 1"
    by (rule ring_distance_next_tail [OF hc t nt croom])
  with le tc c have "cache_ok q'"
    by (simp add: cache_ok_def push(2)) (simp add: q')
  with push(1) show "spsc_inv q'" by (simp add: spsc_inv_def)
qed

lemma spsc_enqueue_fifo:
  assumes inv: "spsc_inv q"
  shows "\<exists>q'. spsc_enqueue q x = Inr (stored q < length (buffer q) - 1, q') \<and>
      spsc_inv q' \<and> length (buffer q') = length (buffer q) \<and>
      contents q' = (if stored q < length (buffer q) - 1 then contents q @ [x] else contents q)"
proof -
  let ?L = "length (buffer q)"
  let ?next = "(tail q + 1) mod vector_size (buffer q)"
  let ?q1 = "q\<lparr>head_cached := head q\<rparr>"
  from inv have ok: "ring_ok q" by (simp add: spsc_inv_def)
  then have t: "unat (tail q) < ?L" by (simp add: ring_ok_def)
  note ne = ring_ok_nonempty [OF ok]
  note full = ring_full [OF ok]
  note inv1 = spsc_refresh_head [OF inv]
  show ?thesis
  proof (cases "?next = head_cached q")
    case False
    note p = spsc_push [OF inv False refl]
    have "spsc_enqueue q x = Inr (True, q\<lparr>buffer := (buffer q)[unat (tail q) := x], tail := ?next\<rparr>)"
      using False ne t by (simp add: spsc_enqueue_def spsc_publish_def Let_def)
    with p show ?thesis by simp
  next
    case True
    show ?thesis
    proof (cases "?next = head q")
      case full': True
      have "spsc_enqueue q x = Inr (False, ?q1)"
        using True full' ne by (simp add: spsc_enqueue_def Let_def)
      moreover have "\<not> stored q < ?L - 1" using full full' by simp
      ultimately show ?thesis using inv1 by simp
    next
      case False
      then have nf: "(tail ?q1 + 1) mod vector_size (buffer ?q1) \<noteq> head_cached ?q1" by simp
      note p = spsc_push [OF inv1 nf refl]
      have "spsc_enqueue q x = Inr (True, ?q1\<lparr>buffer := (buffer q)[unat (tail q) := x], tail := ?next\<rparr>)"
        using True False ne t by (simp add: spsc_enqueue_def spsc_publish_def Let_def)
      with p show ?thesis by simp
    qed
  qed
qed

lemma spsc_pop:
  assumes inv: "spsc_inv q"
    and ne: "head q \<noteq> tail_cached q"
    and q': "q' = q\<lparr>head := (head q + 1) mod vector_size (buffer q)\<rparr>"
  shows "0 < stored q" and "spsc_inv q'" and "contents q = buffer q ! unat (head q) # contents q'"
proof -
  let ?L = "length (buffer q)"
  from inv have ok: "ring_ok q" and c: "cache_ok q" by (simp_all add: spsc_inv_def)
  from ok have h: "unat (head q) < ?L" and L: "?L < 2 ^ 64"
    by (simp_all add: ring_ok_def)
  from c have tc: "unat (tail_cached q) < ?L"
    and le: "ring_distance ?L (head q) (tail_cached q) \<le> stored q"
    and hc: "stored q \<le> ring_distance ?L (head_cached q) (tail q)"
    by (simp_all add: cache_ok_def)
  have seen: "0 < ring_distance ?L (head q) (tail_cached q)"
    using ring_distance_0 [OF h tc] ne by simp
  with le show some: "0 < stored q" by arith
  note pop = ring_pop [OF ok some q']
  show "contents q = buffer q ! unat (head q) # contents q'" by (rule pop(3))
  have nh: "unat (head q') = (if unat (head q) + 1 = ?L then 0 else unat (head q) + 1)"
    using next_unat [OF h L] by (simp add: q')
  have d: "ring_distance ?L (head q') (tail_cached q) = ring_distance ?L (head q) (tail_cached q) - 1"
    by (rule ring_distance_next_head [OF h tc nh seen])
  have same: "buffer q' = buffer q" "head_cached q' = head_cached q"
    "tail_cached q' = tail_cached q" "tail q' = tail q"
    by (simp_all add: q')
  have "cache_ok q'"
    unfolding cache_ok_def same pop(2) d using le hc c by (simp add: cache_ok_def) arith
  with pop(1) show "spsc_inv q'" by (simp add: spsc_inv_def)
qed

lemma spsc_dequeue_fifo:
  assumes inv: "spsc_inv q"
  shows "\<exists>q'. spsc_dequeue q y = Inr (0 < stored q, (if 0 < stored q then hd (contents q) else y), q') \<and>
      spsc_inv q' \<and> length (buffer q') = length (buffer q) \<and> contents q' = tl (contents q)"
proof -
  let ?L = "length (buffer q)"
  let ?next = "(head q + 1) mod vector_size (buffer q)"
  let ?q1 = "q\<lparr>tail_cached := tail q\<rparr>"
  from inv have ok: "ring_ok q" by (simp add: spsc_inv_def)
  then have h: "unat (head q) < ?L" by (simp add: ring_ok_def)
  note ne = ring_ok_nonempty [OF ok]
  note empty = ring_empty [OF ok]
  note inv1 = spsc_refresh_tail [OF inv]
  show ?thesis
  proof (cases "head q = tail_cached q")
    case False
    note p = spsc_pop [OF inv False refl]
    have "spsc_dequeue q y = Inr (True, buffer q ! unat (head q), q\<lparr>head := ?next\<rparr>)"
      using False ne h by (simp add: spsc_dequeue_def spsc_consume_def Let_def)
    with p show ?thesis by simp
  next
    case True
    show ?thesis
    proof (cases "head q = tail q")
      case empty': True
      have "spsc_dequeue q y = Inr (False, y, ?q1)"
        using True empty' by (simp add: spsc_dequeue_def Let_def)
      moreover have "stored q = 0" using empty empty' by simp
      moreover from this have "contents q = []" by (simp add: contents_def)
      ultimately show ?thesis using inv1 by simp
    next
      case False
      then have nf: "head ?q1 \<noteq> tail_cached ?q1" by simp
      note p = spsc_pop [OF inv1 nf refl]
      have "spsc_dequeue q y = Inr (True, buffer q ! unat (head q), ?q1\<lparr>head := ?next\<rparr>)"
        using True False ne h by (simp add: spsc_dequeue_def spsc_consume_def Let_def)
      with p show ?thesis by simp
    qed
  qed
qed

lemma spsc_call_fifo:
  assumes inv: "spsc_inv q"
  shows "\<exists>q'. spsc_call q c = Inr (fst (bounded_call (length (buffer q) - 1) (contents q) c), q') \<and>
      spsc_inv q' \<and> length (buffer q') = length (buffer q) \<and>
      contents q' = snd (bounded_call (length (buffer q) - 1) (contents q) c)"
proof (cases c)
  case (Enqueue x)
  from spsc_enqueue_fifo [OF inv, of x] show ?thesis
    by (auto simp: Enqueue spsc_call_def length_contents)
next
  case (Dequeue y)
  from spsc_dequeue_fifo [OF inv, of y] show ?thesis
    by (cases "contents q") (auto simp: Dequeue spsc_call_def length_contents [symmetric])
qed

lemma mpsc_enqueue_fifo:
  assumes ok: "ring_ok q"
  shows "\<exists>q'. mpsc_enqueue q x = Inr (stored q < length (buffer q) - 1, q') \<and>
      ring_ok q' \<and> length (buffer q') = length (buffer q) \<and>
      contents q' = (if stored q < length (buffer q) - 1 then contents q @ [x] else contents q)"
proof -
  let ?L = "length (buffer q)"
  let ?next = "(tail q + 1) mod vector_size (buffer q)"
  from ok have t: "unat (tail q) < ?L" by (simp add: ring_ok_def)
  note ne = ring_ok_nonempty [OF ok]
  note full = ring_full [OF ok]
  show ?thesis
  proof (cases "?next = head q")
    case True
    then have "mpsc_enqueue q x = Inr (False, q)"
      using ne by (simp add: mpsc_enqueue_unfold)
    moreover have "\<not> stored q < ?L - 1" using full True by simp
    ultimately show ?thesis using ok by simp
  next
    case False
    with full have "stored q \<noteq> ?L - 1" by simp
    with stored_less [OF ok] have room: "stored q < ?L - 1" by arith
    note p = ring_push [OF ok room refl]
    have "mpsc_enqueue q x = Inr (True, q\<lparr>buffer := (buffer q)[unat (tail q) := x], tail := ?next\<rparr>)"
      using False ne t by (simp add: mpsc_enqueue_unfold)
    with p room show ?thesis by simp
  qed
qed

lemma mpsc_dequeue_fifo:
  assumes ok: "ring_ok q"
  shows "\<exists>q'. mpsc_dequeue q y = Inr (0 < stored q, (if 0 < stored q then hd (contents q) else y), q') \<and>
      ring_ok q' \<and> length (buffer q') = length (buffer q) \<and> contents q' = tl (contents q)"
proof -
  let ?L = "length (buffer q)"
  let ?next = "(head q + 1) mod vector_size (buffer q)"
  from ok have h: "unat (head q) < ?L" by (simp add: ring_ok_def)
  note ne = ring_ok_nonempty [OF ok]
  note empty = ring_empty [OF ok]
  show ?thesis
  proof (cases "head q = tail q")
    case True
    then have "mpsc_dequeue q y = Inr (False, y, q)"
      by (simp add: mpsc_dequeue_def)
    moreover have "stored q = 0" using empty True by simp
    moreover from this have "contents q = []" by (simp add: contents_def)
    ultimately show ?thesis using ok by simp
  next
    case False
    with empty have some: "0 < stored q" by simp
    note p = ring_pop [OF ok some refl]
    have "mpsc_dequeue q y = Inr (True, buffer q ! unat (head q), q\<lparr>head := ?next\<rparr>)"
      using False ne h by (simp add: mpsc_dequeue_def Let_def)
    with p some show ?thesis by simp
  qed
qed

lemma mpsc_call_fifo:
  assumes ok: "ring_ok q"
  shows "\<exists>q'. mpsc_call q c = Inr (fst (bounded_call (length (buffer q) - 1) (contents q) c), q') \<and>
      ring_ok q' \<and> length (buffer q') = length (buffer q) \<and>
      contents q' = snd (bounded_call (length (buffer q) - 1) (contents q) c)"
proof (cases c)
  case (Enqueue x)
  from mpsc_enqueue_fifo [OF ok, of x] show ?thesis
    by (auto simp: Enqueue mpsc_call_def length_contents)
next
  case (Dequeue y)
  from mpsc_dequeue_fifo [OF ok, of y] show ?thesis
    by (cases "contents q") (auto simp: Dequeue mpsc_call_def length_contents [symmetric])
qed

section \<open>Sequences of calls act on the ring as on the bounded list\<close>

lemma run_append:
  "run f q (as @ bs) =
     (case run f q as of
        Inl e \<Rightarrow> Inl e
      | Inr (rs, q') \<Rightarrow>
          (case run f q' bs of Inl e \<Rightarrow> Inl e | Inr (rs', q'') \<Rightarrow> Inr (rs @ rs', q'')))"
  by (induction as arbitrary: q) (auto split: sum.splits)

lemma bounded_run_append:
  "bounded_run cap xs (as @ bs) =
     (let (rs, xs') = bounded_run cap xs as; (rs', xs'') = bounded_run cap xs' bs
      in (rs @ rs', xs''))"
  by (induction as arbitrary: xs) (auto split: prod.splits)

lemma bounded_run_enqueues:
  "length xs + length ys \<le> cap \<Longrightarrow>
   bounded_run cap xs (map Enqueue ys) = (map (\<lambda>y. Enqueued True) ys, xs @ ys)"
  by (induction ys arbitrary: xs) auto

lemma bounded_run_dequeues:
  "length ys \<le> length xs \<Longrightarrow>
   bounded_run cap xs (map Dequeue ys) =
     (map (Dequeued True) (take (length ys) xs), drop (length ys) xs)"
proof (induction ys arbitrary: xs)
  case Nil
  then show ?case by simp
next
  case (Cons y ys)
  then obtain a as where xs: "xs = a # as" by (cases xs) auto
  with Cons show ?case by simp
qed

lemma spsc_run_fifo:
  assumes "spsc_inv q"
  shows "\<exists>q'. run spsc_call q cs = Inr (fst (bounded_run (length (buffer q) - 1) (contents q) cs), q') \<and>
      spsc_inv q' \<and> length (buffer q') = length (buffer q) \<and>
      contents q' = snd (bounded_run (length (buffer q) - 1) (contents q) cs)"
  using assms
proof (induction cs arbitrary: q)
  case Nil
  then show ?case by simp
next
  case (Cons c cs)
  from spsc_call_fifo [OF Cons.prems, of c] obtain q1 where
    c: "spsc_call q c = Inr (fst (bounded_call (length (buffer q) - 1) (contents q) c), q1)"
    and inv: "spsc_inv q1" and len: "length (buffer q1) = length (buffer q)"
    and con: "contents q1 = snd (bounded_call (length (buffer q) - 1) (contents q) c)"
    by blast
  from Cons.IH [OF inv] obtain q' where
    r: "run spsc_call q1 cs = Inr (fst (bounded_run (length (buffer q1) - 1) (contents q1) cs), q')"
    and inv': "spsc_inv q'" and len': "length (buffer q') = length (buffer q1)"
    and con': "contents q' = snd (bounded_run (length (buffer q1) - 1) (contents q1) cs)"
    by blast
  show ?case
    using c r inv' len' con' by (simp add: len con split: prod.splits)
qed

lemma mpsc_run_fifo:
  assumes "ring_ok q"
  shows "\<exists>q'. run mpsc_call q cs = Inr (fst (bounded_run (length (buffer q) - 1) (contents q) cs), q') \<and>
      ring_ok q' \<and> length (buffer q') = length (buffer q) \<and>
      contents q' = snd (bounded_run (length (buffer q) - 1) (contents q) cs)"
  using assms
proof (induction cs arbitrary: q)
  case Nil
  then show ?case by simp
next
  case (Cons c cs)
  from mpsc_call_fifo [OF Cons.prems, of c] obtain q1 where
    c: "mpsc_call q c = Inr (fst (bounded_call (length (buffer q) - 1) (contents q) c), q1)"
    and inv: "ring_ok q1" and len: "length (buffer q1) = length (buffer q)"
    and con: "contents q1 = snd (bounded_call (length (buffer q) - 1) (contents q) c)"
    by blast
  from Cons.IH [OF inv] obtain q' where
    r: "run mpsc_call q1 cs = Inr (fst (bounded_run (length (buffer q1) - 1) (contents q1) cs), q')"
    and inv': "ring_ok q'" and len': "length (buffer q') = length (buffer q1)"
    and con': "contents q' = snd (bounded_run (length (buffer q1) - 1) (contents q1) cs)"
    by blast
  show ?case
    using c r inv' len' con' by (simp add: len con split: prod.splits)
qed

subsection \<open>The state after construction\<close>

lemma unat_capacity_succ:
  fixes C :: size_t
  assumes "C + 1 \<noteq> 0"
  shows "unat (C + 1) = unat C + 1"
proof -
  from assms have "1 + C \<noteq> 0" by (simp add: add.commute)
  then have "unat (1 + C) = Suc (unat C)" by (rule unatSuc)
  then show ?thesis by (simp add: add.commute)
qed

lemma spsc_fresh:
  fixes C :: size_t and z :: 'a
  assumes "C + 1 \<noteq> 0"
  defines "q \<equiv> \<lparr>buffer = replicate (unat (C + 1)) z, head = 0, tail = 0, head_cached = 0, tail_cached = 0\<rparr>"
  shows "spsc_inv q" and "length (buffer q) = unat C + 1" and "contents q = []"
proof -
  have lt: "unat (C + 1) < 2 ^ 64" using unsigned_less [of "C + 1"] by simp
  show "length (buffer q) = unat C + 1" by (simp add: q_def unat_capacity_succ [OF assms(1)])
  then show "spsc_inv q" using lt
    by (simp add: spsc_inv_def ring_ok_def cache_ok_def stored_def ring_distance_def q_def)
  show "contents q = []"
    by (simp add: contents_def stored_def ring_distance_def q_def)
qed

lemma mpsc_fresh:
  fixes C :: size_t and z :: 'a
  assumes "C + 1 \<noteq> 0"
  defines "q \<equiv> \<lparr>buffer = replicate (unat (C + 1)) z, head = 0, tail = 0, count = 0\<rparr>"
  shows "ring_ok q" and "length (buffer q) = unat C + 1" and "contents q = []"
proof -
  have lt: "unat (C + 1) < 2 ^ 64" using unsigned_less [of "C + 1"] by simp
  show "length (buffer q) = unat C + 1" by (simp add: q_def unat_capacity_succ [OF assms(1)])
  then show "ring_ok q" using lt
    by (simp add: ring_ok_def q_def)
  show "contents q = []"
    by (simp add: contents_def stored_def ring_distance_def q_def)
qed

section \<open>A fresh queue\<close>

text \<open>
  Claim C4. For every capacity \<open>C \<ge> 1\<close>, right after construction of either queue,
  \<^verbatim>\<open>is_empty()\<close> returns true and a dequeue attempt returns false, with the out-parameter
  and the queue state as they were.
\<close>

theorem fresh_queue_empty:
  "1 \<le> C \<Longrightarrow>
   (\<exists>q. SpscQueue C z = Inr q \<and> spsc_is_empty q \<and> spsc_dequeue q item = Inr (False, item, q)) \<and>
   (\<exists>q. MpscQueue C z = Inr q \<and> mpsc_is_empty q \<and> mpsc_dequeue q item = Inr (False, item, q))"
  by (simp add: SpscQueue_def MpscQueue_def spsc_is_empty_def mpsc_is_empty_def
      spsc_dequeue_def mpsc_dequeue_def)

theorem fresh_queue_empty_witness:
  "(1::size_t) \<le> 3 \<and>
   (\<exists>q. SpscQueue 3 (0::int) = Inr q \<and> spsc_is_empty q \<and> spsc_dequeue q 7 = Inr (False, 7, q)) \<and>
   (\<exists>q. MpscQueue 3 (0::int) = Inr q \<and> mpsc_is_empty q \<and> mpsc_dequeue q 7 = Inr (False, 7, q))"
  using fresh_queue_empty [of 3 0 7] by simp

section \<open>Wrap-around at capacity 4\<close>

text \<open>
  Claim C5. On a queue of capacity 4: enqueue 1, 2, 3, 4; dequeue twice, observing 1 and 2;
  enqueue 5 and 6; dequeue four times, observing 3, 4, 5, 6. Every call returns true. The
  statement gives the state after construction and after the last call; the tail has
  wrapped from slot 4 to slot 0 and on to slot 1, and the queue is empty again.
\<close>

theorem wrap_around_capacity_4:
  "SpscQueue 4 (0::int) =
     Inr \<lparr>buffer = [0, 0, 0, 0, 0], head = 0, tail = 0, head_cached = 0, tail_cached = 0\<rparr> \<and>
   run spsc_call \<lparr>buffer = [0, 0, 0, 0, 0::int], head = 0, tail = 0, head_cached = 0, tail_cached = 0\<rparr>
     [Enqueue 1, Enqueue 2, Enqueue 3, Enqueue 4, Dequeue 0, Dequeue 0,
      Enqueue 5, Enqueue 6, Dequeue 0, Dequeue 0, Dequeue 0, Dequeue 0] =
     Inr ([Enqueued True, Enqueued True, Enqueued True, Enqueued True,
           Dequeued True 1, Dequeued True 2, Enqueued True, Enqueued True,
           Dequeued True 3, Dequeued True 4, Dequeued True 5, Dequeued True 6],
          \<lparr>buffer = [6, 2, 3, 4, 5], head = 1, tail = 1, head_cached = 2, tail_cached = 1\<rparr>) \<and>
   spsc_is_empty \<lparr>buffer = [6, 2, 3, 4, 5::int], head = 1, tail = 1, head_cached = 2, tail_cached = 1\<rparr> \<and>
   MpscQueue 4 (0::int) = Inr \<lparr>buffer = [0, 0, 0, 0, 0], head = 0, tail = 0, count = 0\<rparr> \<and>
   run mpsc_call \<lparr>buffer = [0, 0, 0, 0, 0::int], head = 0, tail = 0, count = 0\<rparr>
     [Enqueue 1, Enqueue 2, Enqueue 3, Enqueue 4, Dequeue 0, Dequeue 0,
      Enqueue 5, Enqueue 6, Dequeue 0, Dequeue 0, Dequeue 0, Dequeue 0] =
     Inr ([Enqueued True, Enqueued True, Enqueued True, Enqueued True,
           Dequeued True 1, Dequeued True 2, Enqueued True, Enqueued True,
           Dequeued True 3, Dequeued True 4, Dequeued True 5, Dequeued True 6],
          \<lparr>buffer = [6, 2, 3, 4, 5], head = 1, tail = 1, count = 0\<rparr>) \<and>
   mpsc_is_empty \<lparr>buffer = [6, 2, 3, 4, 5::int], head = 1, tail = 1, count = 0\<rparr>"
proof -
  have five: "replicate (unat (4 + 1 :: size_t)) (0::int) = [0, 0, 0, 0, 0]"
    by code_simp
  have spsc: "run spsc_call \<lparr>buffer = [0, 0, 0, 0, 0::int], head = 0, tail = 0, head_cached = 0, tail_cached = 0\<rparr>
     [Enqueue 1, Enqueue 2, Enqueue 3, Enqueue 4, Dequeue 0, Dequeue 0,
      Enqueue 5, Enqueue 6, Dequeue 0, Dequeue 0, Dequeue 0, Dequeue 0] =
     Inr ([Enqueued True, Enqueued True, Enqueued True, Enqueued True,
           Dequeued True 1, Dequeued True 2, Enqueued True, Enqueued True,
           Dequeued True 3, Dequeued True 4, Dequeued True 5, Dequeued True 6],
          \<lparr>buffer = [6, 2, 3, 4, 5], head = 1, tail = 1, head_cached = 2, tail_cached = 1\<rparr>)"
    by (simp add: spsc_call_def spsc_enqueue_def spsc_dequeue_def spsc_publish_def
        spsc_consume_def vector_size_def)
  have mpsc: "run mpsc_call \<lparr>buffer = [0, 0, 0, 0, 0::int], head = 0, tail = 0, count = 0\<rparr>
     [Enqueue 1, Enqueue 2, Enqueue 3, Enqueue 4, Dequeue 0, Dequeue 0,
      Enqueue 5, Enqueue 6, Dequeue 0, Dequeue 0, Dequeue 0, Dequeue 0] =
     Inr ([Enqueued True, Enqueued True, Enqueued True, Enqueued True,
           Dequeued True 1, Dequeued True 2, Enqueued True, Enqueued True,
           Dequeued True 3, Dequeued True 4, Dequeued True 5, Dequeued True 6],
          \<lparr>buffer = [6, 2, 3, 4, 5], head = 1, tail = 1, count = 0\<rparr>)"
    by (simp add: mpsc_call_def mpsc_enqueue_unfold mpsc_dequeue_def vector_size_def)
  show ?thesis
    unfolding SpscQueue_eq MpscQueue_eq five
    using spsc mpsc by (simp add: spsc_is_empty_def mpsc_is_empty_def)
qed

section \<open>A call that is turned away\<close>

lemma spsc_enqueue_rejected_same: "spsc_enqueue q x = Inr (False, q') \<Longrightarrow> q' = q"
  by (auto simp: spsc_enqueue_def spsc_publish_def Let_def split: if_splits)

lemma spsc_dequeue_rejected: "spsc_dequeue q y = Inr (False, y', q') \<Longrightarrow> q' = q \<and> y' = y"
  by (auto simp: spsc_dequeue_def spsc_consume_def Let_def split: if_splits)

lemma mpsc_enqueue_rejected: "mpsc_enqueue m x = Inr (False, m') \<Longrightarrow> m' = m"
  by (auto simp: mpsc_enqueue_unfold split: if_splits)

lemma mpsc_dequeue_rejected: "mpsc_dequeue m y = Inr (False, y', m') \<Longrightarrow> m' = m \<and> y' = y"
  by (auto simp: mpsc_dequeue_def Let_def split: if_splits)

text \<open>
  Claim C8. Whenever an enqueue or a dequeue of either queue returns false, the call has
  returned (a result \<open>Inr\<close>: no exception, no fault) and the whole state is as it was
  before the call: both cursors, every buffer slot, and for the SPSC queue the cached
  cursors too, since a refresh that ends in a rejection stores the value the mirror
  already had. A rejected dequeue also leaves the caller's variable as it was.
\<close>

theorem rejection_changes_nothing:
  "(spsc_enqueue p x = Inr (False, p') \<longrightarrow> p' = p) \<and>
   (spsc_dequeue q y = Inr (False, y', q') \<longrightarrow> q' = q \<and> y' = y) \<and>
   (mpsc_enqueue m v = Inr (False, m') \<longrightarrow> m' = m) \<and>
   (mpsc_dequeue n w = Inr (False, w', n') \<longrightarrow> n' = n \<and> w' = w)"
  using spsc_enqueue_rejected_same [of p x p'] spsc_dequeue_rejected [of q y y' q']
    mpsc_enqueue_rejected [of m v m'] mpsc_dequeue_rejected [of n w w' n']
  by blast

theorem rejection_changes_nothing_witness:
  "spsc_enqueue \<lparr>buffer = [1, 0::int], head = 0, tail = 1, head_cached = 0, tail_cached = 0\<rparr> 9 =
     Inr (False, \<lparr>buffer = [1, 0], head = 0, tail = 1, head_cached = 0, tail_cached = 0\<rparr>) \<and>
   spsc_dequeue \<lparr>buffer = [1, 0::int], head = 1, tail = 1, head_cached = 0, tail_cached = 1\<rparr> 5 =
     Inr (False, 5, \<lparr>buffer = [1, 0], head = 1, tail = 1, head_cached = 0, tail_cached = 1\<rparr>) \<and>
   mpsc_enqueue \<lparr>buffer = [1, 0::int], head = 0, tail = 1, count = 0\<rparr> 9 =
     Inr (False, \<lparr>buffer = [1, 0], head = 0, tail = 1, count = 0\<rparr>) \<and>
   mpsc_dequeue \<lparr>buffer = [1, 0::int], head = 1, tail = 1, count = 0\<rparr> 5 =
     Inr (False, 5, \<lparr>buffer = [1, 0], head = 1, tail = 1, count = 0\<rparr>)"
  using rejection_changes_nothing
    [of "\<lparr>buffer = [1, 0::int], head = 0, tail = 1, head_cached = 0, tail_cached = 0\<rparr>" 9
        "\<lparr>buffer = [1, 0], head = 0, tail = 1, head_cached = 0, tail_cached = 0\<rparr>"
        "\<lparr>buffer = [1, 0], head = 1, tail = 1, head_cached = 0, tail_cached = 1\<rparr>" 5 5
        "\<lparr>buffer = [1, 0], head = 1, tail = 1, head_cached = 0, tail_cached = 1\<rparr>"
        "\<lparr>buffer = [1, 0], head = 0, tail = 1, count = 0\<rparr>" 9
        "\<lparr>buffer = [1, 0], head = 0, tail = 1, count = 0\<rparr>"
        "\<lparr>buffer = [1, 0], head = 1, tail = 1, count = 0\<rparr>" 5 5
        "\<lparr>buffer = [1, 0], head = 1, tail = 1, count = 0\<rparr>"]
  by (simp add: spsc_enqueue_def spsc_dequeue_def mpsc_enqueue_unfold mpsc_dequeue_def vector_size_def)

section \<open>First in, first out\<close>

text \<open>
  For every capacity \<open>C \<ge> 1\<close> whose buffer length \<open>C + 1\<close> does not wrap to \<open>0\<close> in
  \<^verbatim>\<open>size_t\<close> (that is, \<open>C < 2 ^ 64 - 1\<close>) and every sequence of \<open>N \<le> C\<close> items: on a
  freshly constructed SPSC queue the \<open>N\<close> enqueues all return true, and \<open>N\<close> dequeues
  then all return true and hand the items out in the order in which they were enqueued.
  (\<open>ys\<close> are the values of the caller's variable before each dequeue.)
\<close>

lemma spsc_fifo:
  fixes C :: size_t
  assumes "1 \<le> C" and "C + 1 \<noteq> 0" and "length xs \<le> unat C" and "length ys = length xs"
  shows "\<exists>q q'. SpscQueue C z = Inr q \<and>
      run spsc_call q (map Enqueue xs @ map Dequeue ys) =
        Inr (map (\<lambda>x. Enqueued True) xs @ map (Dequeued True) xs, q')"
proof -
  let ?q = "\<lparr>buffer = replicate (unat (C + 1)) z, head = 0, tail = 0, head_cached = 0, tail_cached = 0\<rparr>"
  let ?cs = "map Enqueue xs @ map Dequeue ys"
  note fresh = spsc_fresh [OF assms(2), of z]
  have spec: "bounded_run (unat C) [] ?cs = (map (\<lambda>x. Enqueued True) xs @ map (Dequeued True) xs, [])"
    using assms(3,4) by (simp add: bounded_run_append bounded_run_enqueues bounded_run_dequeues)
  from spsc_run_fifo [OF fresh(1), of ?cs] obtain q' where
    "run spsc_call ?q ?cs = Inr (fst (bounded_run (length (buffer ?q) - 1) (contents ?q) ?cs), q')"
    by blast
  then have "run spsc_call ?q ?cs = Inr (map (\<lambda>x. Enqueued True) xs @ map (Dequeued True) xs, q')"
    unfolding fresh(2,3) by (simp add: spec)
  then show ?thesis
    unfolding SpscQueue_eq by blast
qed

lemma spsc_fifo_example:
  "(1::size_t) \<le> 2 \<and> (2::size_t) + 1 \<noteq> 0 \<and> length [10, 20::int] \<le> unat (2::size_t) \<and>
   length [0, 0::int] = length [10, 20::int] \<and>
   (\<exists>q q'. SpscQueue 2 (0::int) = Inr q \<and>
      run spsc_call q (map Enqueue [10, 20] @ map Dequeue [0, 0]) =
        Inr (map (\<lambda>x. Enqueued True) [10, 20::int] @ map (Dequeued True) [10, 20], q'))"
  using spsc_fifo [of 2 "[10, 20]" "[0, 0]" 0] by simp

text \<open>
  Claim C1. For every capacity \<open>C \<ge> 1\<close> and every sequence of \<open>N \<le> C\<close> items, \<open>N\<close>
  enqueues on a freshly constructed SPSC queue return true and \<open>N\<close> dequeues then return
  true and hand the items out in their order. The code falls short of this at one
  capacity. The constructor's guard, which throws \<open>capacity too big\<close>, compares the
  unsigned \<open>capacity + 1\<close> with \<open>0\<close> and never fires; at \<open>C = 2 ^ 64 - 1\<close>, where
  \<open>capacity + 1\<close> wraps to \<open>0\<close>, construction returns a queue over an empty buffer, and
  the first enqueue on it takes a remainder by zero instead of returning true.
\<close>

theorem spsc_fifo_at_max_capacity:
  "(1::size_t) \<le> 18446744073709551615 \<and>
   length [7::int] \<le> unat (18446744073709551615 :: size_t) \<and>
   SpscQueue 18446744073709551615 (0::int) =
     Inr \<lparr>buffer = [], head = 0, tail = 0, head_cached = 0, tail_cached = 0\<rparr> \<and>
   run spsc_call \<lparr>buffer = [], head = 0, tail = 0, head_cached = 0, tail_cached = 0\<rparr>
     (map Enqueue [7::int] @ map Dequeue [0]) = Inl DivisionByZero"
  by (simp add: SpscQueue_eq spsc_call_simps spsc_enqueue_def vector_size_def)

section \<open>A full queue turns an enqueue away\<close>

text \<open>
  For every capacity \<open>C \<ge> 1\<close> with \<open>C < 2 ^ 64 - 1\<close>: on a freshly constructed SPSC
  queue \<open>C\<close> enqueues in a row all return true; one more returns false and leaves the
  whole state, the cached cursors included, as it was; \<open>C\<close> dequeues then return true and
  hand out the \<open>C\<close> items in their original order.
\<close>

lemma spsc_full_rejects:
  fixes C :: size_t
  assumes "1 \<le> C" and "C + 1 \<noteq> 0" and "length xs = unat C" and "length ys = unat C"
  shows "\<exists>q q1 q2. SpscQueue C z = Inr q \<and>
      run spsc_call q (map Enqueue xs) = Inr (map (\<lambda>x. Enqueued True) xs, q1) \<and>
      spsc_enqueue q1 x = Inr (False, q1) \<and>
      run spsc_call q1 (map Dequeue ys) = Inr (map (Dequeued True) xs, q2)"
proof -
  let ?q = "\<lparr>buffer = replicate (unat (C + 1)) z, head = 0, tail = 0, head_cached = 0, tail_cached = 0\<rparr>"
  note fresh = spsc_fresh [OF assms(2), of z]
  from spsc_run_fifo [OF fresh(1), of "map Enqueue xs"] obtain q1 where
    r: "run spsc_call ?q (map Enqueue xs) =
        Inr (fst (bounded_run (length (buffer ?q) - 1) (contents ?q) (map Enqueue xs)), q1)"
    and inv: "spsc_inv q1" and len: "length (buffer q1) = length (buffer ?q)"
    and con: "contents q1 = snd (bounded_run (length (buffer ?q) - 1) (contents ?q) (map Enqueue xs))"
    by blast
  have spec: "bounded_run (unat C) [] (map Enqueue xs) = (map (\<lambda>x. Enqueued True) xs, xs)"
    using assms(3) by (simp add: bounded_run_enqueues)
  from r have r1: "run spsc_call ?q (map Enqueue xs) = Inr (map (\<lambda>x. Enqueued True) xs, q1)"
    unfolding fresh(2,3) by (simp add: spec)
  from con have con1: "contents q1 = xs"
    unfolding fresh(2,3) by (simp add: spec)
  from len have len1: "length (buffer q1) - 1 = unat C"
    unfolding fresh(2) by simp
  have st: "stored q1 = unat C"
    using con1 assms(3) length_contents [of q1] by simp
  from spsc_enqueue_fifo [OF inv, of x] obtain q1' where
    "spsc_enqueue q1 x = Inr (False, q1')"
    unfolding st len1 by auto
  moreover from this have "q1' = q1"
    by (rule spsc_enqueue_rejected_same)
  ultimately have full: "spsc_enqueue q1 x = Inr (False, q1)" by simp
  have spec2: "bounded_run (unat C) xs (map Dequeue ys) = (map (Dequeued True) xs, [])"
    using assms(3,4) by (simp add: bounded_run_dequeues)
  from spsc_run_fifo [OF inv, of "map Dequeue ys"] obtain q2 where
    "run spsc_call q1 (map Dequeue ys) = Inr (map (Dequeued True) xs, q2)"
    unfolding len1 con1 spec2 by auto
  with r1 full show ?thesis
    unfolding SpscQueue_eq by blast
qed

lemma spsc_full_rejects_example:
  "(1::size_t) \<le> 2 \<and> (2::size_t) + 1 \<noteq> 0 \<and> length [10, 20::int] = unat (2::size_t) \<and>
   length [0, 0::int] = unat (2::size_t) \<and>
   (\<exists>q q1 q2. SpscQueue 2 (0::int) = Inr q \<and>
      run spsc_call q (map Enqueue [10, 20]) = Inr (map (\<lambda>x. Enqueued True) [10, 20::int], q1) \<and>
      spsc_enqueue q1 30 = Inr (False, q1) \<and>
      run spsc_call q1 (map Dequeue [0, 0]) = Inr (map (Dequeued True) [10, 20], q2))"
  using spsc_full_rejects [of 2 "[10, 20]" "[0, 0]" 0 30] by simp

text \<open>
  Claim C3. For every capacity \<open>C \<ge> 1\<close>, on a freshly constructed queue \<open>C\<close> enqueues in
  a row return true, the next one returns false and leaves the state unchanged, and \<open>C\<close>
  dequeues then hand out the \<open>C\<close> items in order. The code falls short of this at the
  capacity \<open>2 ^ 64 - 1\<close>, which the constructor's guard was to turn away and does not:
  the buffer is empty and already the first of the enqueues takes a remainder by zero.
\<close>

theorem spsc_full_rejects_at_max_capacity:
  "(1::size_t) \<le> 18446744073709551615 \<and>
   SpscQueue 18446744073709551615 (0::int) =
     Inr \<lparr>buffer = [], head = 0, tail = 0, head_cached = 0, tail_cached = 0\<rparr> \<and>
   spsc_enqueue \<lparr>buffer = [], head = 0, tail = 0, head_cached = 0, tail_cached = 0\<rparr> (7::int) =
     Inl DivisionByZero"
  by (simp add: SpscQueue_eq spsc_enqueue_def vector_size_def)

section \<open>The invariants of the ring\<close>

text \<open>
  Calls that run one at a time, each to its end before the next begins, keep the ring well
  formed. For either queue constructed with a capacity \<open>C < 2 ^ 64 - 1\<close>, after any such
  sequence of calls: the calls have returned what the bounded first-in first-out list of
  capacity \<open>C\<close> returns; the buffer length is \<open>C + 1\<close>; both cursors are below the buffer
  length; the slots from head to tail hold the items accepted and not yet handed out; no
  item is held exactly when \<open>head = tail\<close> (which is what \<^verbatim>\<open>is_empty()\<close> tests), and
  \<open>C\<close> items are held exactly when \<open>(tail + 1) mod length = head\<close>.
\<close>

lemma ring_invariants:
  fixes C :: size_t
  assumes "C + 1 \<noteq> 0"
  shows "(\<exists>q0 q. SpscQueue C z = Inr q0 \<and>
            run spsc_call q0 cs = Inr (fst (bounded_run (unat C) [] cs), q) \<and>
            length (buffer q) = unat C + 1 \<and>
            unat (head q) < length (buffer q) \<and> unat (tail q) < length (buffer q) \<and>
            contents q = snd (bounded_run (unat C) [] cs) \<and>
            (contents q = [] \<longleftrightarrow> head q = tail q) \<and>
            (length (contents q) = unat C \<longleftrightarrow> (tail q + 1) mod vector_size (buffer q) = head q) \<and>
            (spsc_is_empty q \<longleftrightarrow> contents q = [])) \<and>
         (\<exists>q0 q. MpscQueue C z = Inr q0 \<and>
            run mpsc_call q0 cs = Inr (fst (bounded_run (unat C) [] cs), q) \<and>
            length (buffer q) = unat C + 1 \<and>
            unat (head q) < length (buffer q) \<and> unat (tail q) < length (buffer q) \<and>
            contents q = snd (bounded_run (unat C) [] cs) \<and>
            (contents q = [] \<longleftrightarrow> head q = tail q) \<and>
            (length (contents q) = unat C \<longleftrightarrow> (tail q + 1) mod vector_size (buffer q) = head q) \<and>
            (mpsc_is_empty q \<longleftrightarrow> contents q = []))"
proof
  let ?q = "\<lparr>buffer = replicate (unat (C + 1)) z, head = 0, tail = 0, head_cached = 0, tail_cached = 0\<rparr>"
  note fresh = spsc_fresh [OF assms, of z]
  from spsc_run_fifo [OF fresh(1), of cs] obtain q where
    r: "run spsc_call ?q cs = Inr (fst (bounded_run (unat C) [] cs), q)"
    and inv: "spsc_inv q" and len: "length (buffer q) = unat C + 1"
    and con: "contents q = snd (bounded_run (unat C) [] cs)"
    unfolding fresh(2,3) by auto
  from inv have ok: "ring_ok q" by (simp add: spsc_inv_def)
  have e: "contents q = [] \<longleftrightarrow> head q = tail q"
    using ring_empty [OF ok] length_contents [of q] by auto
  have f: "length (contents q) = unat C \<longleftrightarrow> (tail q + 1) mod vector_size (buffer q) = head q"
    using ring_full [OF ok] len by (simp add: length_contents)
  from ok have "unat (head q) < length (buffer q)" "unat (tail q) < length (buffer q)"
    by (simp_all add: ring_ok_def)
  with r len con e f
  show "\<exists>q0 q. SpscQueue C z = Inr q0 \<and>
            run spsc_call q0 cs = Inr (fst (bounded_run (unat C) [] cs), q) \<and>
            length (buffer q) = unat C + 1 \<and>
            unat (head q) < length (buffer q) \<and> unat (tail q) < length (buffer q) \<and>
            contents q = snd (bounded_run (unat C) [] cs) \<and>
            (contents q = [] \<longleftrightarrow> head q = tail q) \<and>
            (length (contents q) = unat C \<longleftrightarrow> (tail q + 1) mod vector_size (buffer q) = head q) \<and>
            (spsc_is_empty q \<longleftrightarrow> contents q = [])"
    unfolding SpscQueue_eq spsc_is_empty_def by blast
next
  let ?q = "\<lparr>buffer = replicate (unat (C + 1)) z, head = 0, tail = 0, count = 0\<rparr>"
  note fresh = mpsc_fresh [OF assms, of z]
  from mpsc_run_fifo [OF fresh(1), of cs] obtain q where
    r: "run mpsc_call ?q cs = Inr (fst (bounded_run (unat C) [] cs), q)"
    and ok: "ring_ok q" and len: "length (buffer q) = unat C + 1"
    and con: "contents q = snd (bounded_run (unat C) [] cs)"
    unfolding fresh(2,3) by auto
  have e: "contents q = [] \<longleftrightarrow> head q = tail q"
    using ring_empty [OF ok] length_contents [of q] by auto
  have f: "length (contents q) = unat C \<longleftrightarrow> (tail q + 1) mod vector_size (buffer q) = head q"
    using ring_full [OF ok] len by (simp add: length_contents)
  from ok have "unat (head q) < length (buffer q)" "unat (tail q) < length (buffer q)"
    by (simp_all add: ring_ok_def)
  with r len con e f
  show "\<exists>q0 q. MpscQueue C z = Inr q0 \<and>
            run mpsc_call q0 cs = Inr (fst (bounded_run (unat C) [] cs), q) \<and>
            length (buffer q) = unat C + 1 \<and>
            unat (head q) < length (buffer q) \<and> unat (tail q) < length (buffer q) \<and>
            contents q = snd (bounded_run (unat C) [] cs) \<and>
            (contents q = [] \<longleftrightarrow> head q = tail q) \<and>
            (length (contents q) = unat C \<longleftrightarrow> (tail q + 1) mod vector_size (buffer q) = head q) \<and>
            (mpsc_is_empty q \<longleftrightarrow> contents q = [])"
    unfolding MpscQueue_eq mpsc_is_empty_def by blast
qed

lemma ring_invariants_example:
  "(2::size_t) + 1 \<noteq> 0 \<and>
   (\<exists>q0 q. SpscQueue 2 (0::int) = Inr q0 \<and>
            run spsc_call q0 [Enqueue 5, Enqueue 6, Dequeue 0, Enqueue 7, Enqueue 8] =
              Inr (fst (bounded_run (unat (2::size_t)) [] [Enqueue 5, Enqueue 6, Dequeue 0, Enqueue 7, Enqueue 8]), q) \<and>
            length (buffer q) = unat (2::size_t) + 1 \<and>
            unat (head q) < length (buffer q) \<and> unat (tail q) < length (buffer q) \<and>
            contents q = snd (bounded_run (unat (2::size_t)) [] [Enqueue 5, Enqueue 6, Dequeue 0, Enqueue 7, Enqueue 8]) \<and>
            (contents q = [] \<longleftrightarrow> head q = tail q) \<and>
            (length (contents q) = unat (2::size_t) \<longleftrightarrow> (tail q + 1) mod vector_size (buffer q) = head q) \<and>
            (spsc_is_empty q \<longleftrightarrow> contents q = [])) \<and>
   (\<exists>q0 q. MpscQueue 2 (0::int) = Inr q0 \<and>
            run mpsc_call q0 [Enqueue 5, Enqueue 6, Dequeue 0, Enqueue 7, Enqueue 8] =
              Inr (fst (bounded_run (unat (2::size_t)) [] [Enqueue 5, Enqueue 6, Dequeue 0, Enqueue 7, Enqueue 8]), q) \<and>
            length (buffer q) = unat (2::size_t) + 1 \<and>
            unat (head q) < length (buffer q) \<and> unat (tail q) < length (buffer q) \<and>
            contents q = snd (bounded_run (unat (2::size_t)) [] [Enqueue 5, Enqueue 6, Dequeue 0, Enqueue 7, Enqueue 8]) \<and>
            (contents q = [] \<longleftrightarrow> head q = tail q) \<and>
            (length (contents q) = unat (2::size_t) \<longleftrightarrow> (tail q + 1) mod vector_size (buffer q) = head q) \<and>
            (mpsc_is_empty q \<longleftrightarrow> contents q = []))"
proof -
  have h: "(2::size_t) + 1 \<noteq> 0" by simp
  from ring_invariants [OF h, of "0::int" "[Enqueue 5, Enqueue 6, Dequeue 0, Enqueue 7, Enqueue 8]"] h
  show ?thesis by (intro conjI) blast+
qed

text \<open>
  Producers whose calls overlap do not keep it so. On an MPSC queue of capacity 1, let
  producer 1 load the tail and pass the fullness test, then stop before its exchange.
  Producer 0 enqueues 10, the consumer dequeues it, producer 2 enqueues 30: the tail has
  gone from 0 to 1 and back to 0, and the queue is full.
\<close>

lemma stale_run_full:
  "interleave \<lparr>queue = \<lparr>buffer = [0, 0::int], head = 0, tail = 0, count = 0\<rparr>,
     producers = [enqueue_call 10, enqueue_call 20, enqueue_call 30], consumer = dequeue_call 99\<rparr>
   [Producer 1, Producer 1,
    Producer 0, Producer 0, Producer 0, Producer 0,
    Consumer, Consumer, Consumer, Consumer,
    Producer 2, Producer 2, Producer 2, Producer 2] =
   \<lparr>queue = \<lparr>buffer = [10, 30], head = 1, tail = 0, count = 0\<rparr>,
    producers =
      [\<lparr>e_pc = E_return True, e_item = 10, e_t = 0, e_next_t = 1\<rparr>,
       \<lparr>e_pc = E_exchange, e_item = 20, e_t = 0, e_next_t = 1\<rparr>,
       \<lparr>e_pc = E_return True, e_item = 30, e_t = 1, e_next_t = 0\<rparr>],
    consumer = \<lparr>d_pc = D_return True, d_item = 10, d_h = 0\<rparr>\<rparr>"
  by (simp add: interleave_def thread_step_def enqueue_step_def dequeue_step_def
      enqueue_call_def dequeue_call_def compare_exchange_strong_def vector_size_def)

text \<open>
  Producer 1's exchange compares the tail with the value it loaded, finds 0 again, and
  succeeds: its enqueue of 20 is accepted on the full queue.
\<close>

lemma stale_run_accepted:
  "interleave
     \<lparr>queue = \<lparr>buffer = [10, 30::int], head = 1, tail = 0, count = 0\<rparr>,
      producers =
        [\<lparr>e_pc = E_return True, e_item = 10, e_t = 0, e_next_t = 1\<rparr>,
         \<lparr>e_pc = E_exchange, e_item = 20, e_t = 0, e_next_t = 1\<rparr>,
         \<lparr>e_pc = E_return True, e_item = 30, e_t = 1, e_next_t = 0\<rparr>],
      consumer = \<lparr>d_pc = D_return True, d_item = 10, d_h = 0\<rparr>\<rparr>
     [Producer 1, Producer 1] =
   \<lparr>queue = \<lparr>buffer = [20, 30], head = 1, tail = 1, count = 0\<rparr>,
    producers =
      [\<lparr>e_pc = E_return True, e_item = 10, e_t = 0, e_next_t = 1\<rparr>,
       \<lparr>e_pc = E_return True, e_item = 20, e_t = 0, e_next_t = 1\<rparr>,
       \<lparr>e_pc = E_return True, e_item = 30, e_t = 1, e_next_t = 0\<rparr>],
    consumer = \<lparr>d_pc = D_return True, d_item = 10, d_h = 0\<rparr>\<rparr>"
  by (simp add: interleave_def thread_step_def enqueue_step_def compare_exchange_strong_def)

text \<open>
  Claim C6. On both queues the buffer length equals \<open>capacity + 1\<close> and never changes,
  both cursors stay below the buffer length, and the queue is empty exactly when
  \<open>head = tail\<close> and full exactly when \<open>(tail + 1) mod length = head\<close>, after every
  operation. The code falls short of this in two places.

  Constructed with capacity \<open>2 ^ 64 - 1\<close>, which the constructors' guard was to turn away
  and does not, either queue has a buffer of length \<open>0\<close>, and its cursors, both \<open>0\<close>, are
  not below the buffer length.

  On the MPSC queue the fullness test of line 41 and the exchange of line 46 are two
  steps, and the exchange checks only that the tail has the value loaded at line 37, not
  that it was left alone in between. In the run above, on a queue of capacity 1, the
  queue is full when producer 1 resumes (\<open>(tail + 1) mod length = head\<close>), and its enqueue
  is accepted all the same. At the end three enqueues and one dequeue have returned true,
  the items 20 and 30 are in the buffer and were never handed out, and \<open>head = tail\<close>:
  \<^verbatim>\<open>is_empty()\<close> is true of a queue that holds two accepted items.
\<close>

theorem ring_invariants_broken:
  "SpscQueue 18446744073709551615 (0::int) =
     Inr \<lparr>buffer = [], head = 0, tail = 0, head_cached = 0, tail_cached = 0\<rparr> \<and>
   MpscQueue 18446744073709551615 (0::int) = Inr \<lparr>buffer = [], head = 0, tail = 0, count = 0\<rparr> \<and>
   \<not> unat (head \<lparr>buffer = [] :: int list, head = 0, tail = 0, head_cached = 0, tail_cached = 0\<rparr>)
       < length (buffer \<lparr>buffer = [] :: int list, head = 0, tail = 0, head_cached = 0, tail_cached = 0\<rparr>) \<and>
   \<not> unat (tail \<lparr>buffer = [] :: int list, head = 0, tail = 0, count = 0\<rparr>)
       < length (buffer \<lparr>buffer = [] :: int list, head = 0, tail = 0, count = 0\<rparr>) \<and>
   MpscQueue 1 (0::int) = Inr \<lparr>buffer = [0, 0], head = 0, tail = 0, count = 0\<rparr> \<and>
   interleave \<lparr>queue = \<lparr>buffer = [0, 0::int], head = 0, tail = 0, count = 0\<rparr>,
     producers = [enqueue_call 10, enqueue_call 20, enqueue_call 30], consumer = dequeue_call 99\<rparr>
    [Producer 1, Producer 1,
     Producer 0, Producer 0, Producer 0, Producer 0,
     Consumer, Consumer, Consumer, Consumer,
     Producer 2, Producer 2, Producer 2, Producer 2] =
   \<lparr>queue = \<lparr>buffer = [10, 30], head = 1, tail = 0, count = 0\<rparr>,
    producers =
      [\<lparr>e_pc = E_return True, e_item = 10, e_t = 0, e_next_t = 1\<rparr>,
       \<lparr>e_pc = E_exchange, e_item = 20, e_t = 0, e_next_t = 1\<rparr>,
       \<lparr>e_pc = E_return True, e_item = 30, e_t = 1, e_next_t = 0\<rparr>],
    consumer = \<lparr>d_pc = D_return True, d_item = 10, d_h = 0\<rparr>\<rparr> \<and>
   (tail \<lparr>buffer = [10, 30::int], head = 1, tail = 0, count = 0\<rparr> + 1)
       mod vector_size (buffer \<lparr>buffer = [10, 30::int], head = 1, tail = 0, count = 0\<rparr>)
     = head \<lparr>buffer = [10, 30::int], head = 1, tail = 0, count = 0\<rparr> \<and>
   interleave
     \<lparr>queue = \<lparr>buffer = [10, 30::int], head = 1, tail = 0, count = 0\<rparr>,
      producers =
        [\<lparr>e_pc = E_return True, e_item = 10, e_t = 0, e_next_t = 1\<rparr>,
         \<lparr>e_pc = E_exchange, e_item = 20, e_t = 0, e_next_t = 1\<rparr>,
         \<lparr>e_pc = E_return True, e_item = 30, e_t = 1, e_next_t = 0\<rparr>],
      consumer = \<lparr>d_pc = D_return True, d_item = 10, d_h = 0\<rparr>\<rparr>
     [Producer 1, Producer 1] =
   \<lparr>queue = \<lparr>buffer = [20, 30], head = 1, tail = 1, count = 0\<rparr>,
    producers =
      [\<lparr>e_pc = E_return True, e_item = 10, e_t = 0, e_next_t = 1\<rparr>,
       \<lparr>e_pc = E_return True, e_item = 20, e_t = 0, e_next_t = 1\<rparr>,
       \<lparr>e_pc = E_return True, e_item = 30, e_t = 1, e_next_t = 0\<rparr>],
    consumer = \<lparr>d_pc = D_return True, d_item = 10, d_h = 0\<rparr>\<rparr> \<and>
   mpsc_is_empty \<lparr>buffer = [20, 30::int], head = 1, tail = 1, count = 0\<rparr>"
proof -
  have two: "replicate (unat (1 + 1 :: size_t)) (0::int) = [0, 0]"
    by code_simp
  have m: "MpscQueue 1 (0::int) = Inr \<lparr>buffer = [0, 0], head = 0, tail = 0, count = 0\<rparr>"
    unfolding MpscQueue_eq two ..
  have f: "(tail \<lparr>buffer = [10, 30::int], head = 1, tail = 0, count = 0\<rparr> + 1)
       mod vector_size (buffer \<lparr>buffer = [10, 30::int], head = 1, tail = 0, count = 0\<rparr>)
     = head \<lparr>buffer = [10, 30::int], head = 1, tail = 0, count = 0\<rparr>"
    by (simp add: vector_size_def)
  show ?thesis
    unfolding stale_run_full stale_run_accepted m
    using f by (simp add: SpscQueue_eq MpscQueue_eq mpsc_is_empty_def)
qed

section \<open>The cached cursors against the real ones\<close>

lemma cached_head_sound:
  assumes "spsc_inv q" "(tail q + 1) mod vector_size (buffer q) = head q"
  shows "(tail q + 1) mod vector_size (buffer q) = head_cached q"
proof (rule ccontr)
  assume "(tail q + 1) mod vector_size (buffer q) \<noteq> head_cached q"
  from spsc_push(1) [OF assms(1) this refl] have "stored q < length (buffer q) - 1" .
  moreover from assms(1) have "ring_ok q" by (simp add: spsc_inv_def)
  from ring_full [OF this] assms(2) have "stored q = length (buffer q) - 1" by simp
  ultimately show False by simp
qed

lemma cached_tail_sound:
  assumes "spsc_inv q" "head q = tail q"
  shows "head q = tail_cached q"
proof (rule ccontr)
  assume "head q \<noteq> tail_cached q"
  from spsc_pop(1) [OF assms(1) this refl] have "0 < stored q" .
  moreover from assms(1) have "ring_ok q" by (simp add: spsc_inv_def)
  from ring_empty [OF this] assms(2) have "stored q = 0" by simp
  ultimately show False by simp
qed

lemma agree_enqueue_inv:
  assumes "spsc_reachable_inv q"
  shows "agree_enqueue (spsc_enqueue q x) (ref_enqueue q x)"
proof (cases "spsc_inv q")
  case True
  from cached_head_sound [OF True] show ?thesis
    by (auto simp: agree_enqueue_def spsc_enqueue_def ref_enqueue_def spsc_publish_def Let_def
        same_ring_def)
next
  case False
  with assms have "buffer q = []" by (simp add: spsc_reachable_inv_def spsc_degenerate_def)
  then show ?thesis
    by (simp add: agree_enqueue_def spsc_enqueue_def ref_enqueue_def vector_size_def)
qed

lemma agree_dequeue_inv:
  assumes "spsc_reachable_inv q"
  shows "agree_dequeue (spsc_dequeue q y) (ref_dequeue q y)"
proof (cases "spsc_inv q")
  case True
  from cached_tail_sound [OF True] show ?thesis
    by (auto simp: agree_dequeue_def spsc_dequeue_def ref_dequeue_def spsc_consume_def Let_def
        same_ring_def)
next
  case False
  with assms have "spsc_degenerate q" by (simp add: spsc_reachable_inv_def)
  then show ?thesis
    by (simp add: agree_dequeue_def spsc_dequeue_def ref_dequeue_def spsc_degenerate_def
        same_ring_def)
qed

lemma spsc_reachable_call:
  assumes "spsc_reachable_inv q" "spsc_call q c = Inr (r, q')"
  shows "spsc_reachable_inv q'"
proof (cases "spsc_inv q")
  case True
  from spsc_call_fifo [OF True, of c] assms(2) show ?thesis
    by (auto simp: spsc_reachable_inv_def)
next
  case False
  with assms have d: "spsc_degenerate q" by (simp add: spsc_reachable_inv_def)
  show ?thesis
  proof (cases c)
    case (Enqueue x)
    with d assms(2) show ?thesis
      by (simp add: spsc_call_simps spsc_enqueue_def spsc_degenerate_def vector_size_def)
  next
    case (Dequeue y)
    with d assms(2) show ?thesis
      by (auto simp: spsc_call_simps spsc_dequeue_def spsc_degenerate_def spsc_reachable_inv_def)
  qed
qed

lemma spsc_reachable_run:
  assumes "spsc_reachable_inv q" "run spsc_call q cs = Inr (rs, q')"
  shows "spsc_reachable_inv q'"
  using assms
proof (induction cs arbitrary: q rs)
  case Nil
  then show ?case by simp
next
  case (Cons c cs)
  from Cons.prems(2) obtain r q1 rs1 where
    c: "spsc_call q c = Inr (r, q1)" and r: "run spsc_call q1 cs = Inr (rs1, q')"
    by (auto split: sum.splits)
  from Cons.IH [OF spsc_reachable_call [OF Cons.prems(1) c] r] show ?case .
qed

lemma spsc_reachable_fresh:
  assumes "SpscQueue C z = Inr q"
  shows "spsc_reachable_inv q"
proof (cases "C + 1 = 0")
  case True
  with assms show ?thesis
    by (auto simp: SpscQueue_eq spsc_reachable_inv_def spsc_degenerate_def)
next
  case False
  from spsc_fresh(1) [OF False, of z] assms show ?thesis
    by (auto simp: SpscQueue_eq spsc_reachable_inv_def)
qed

text \<open>
  Claim C7. The cached cursors are never a source of truth: whatever values the mirrors
  hold in a state the SPSC queue is in (any state a freshly constructed queue reaches
  through enqueue and dequeue calls; the mirrors are private and written only by the
  refreshes of lines 32 and 50), \<^verbatim>\<open>enqueue\<close> and \<^verbatim>\<open>dequeue\<close> return the same boolean
  (and item) and leave the same buffer, head and tail as the reference that reads the
  peer's real cursor.
\<close>

theorem cached_cursors_agree:
  assumes "SpscQueue C z = Inr q0" and "run spsc_call q0 cs = Inr (rs, q)"
  shows "agree_enqueue (spsc_enqueue q x) (ref_enqueue q x) \<and>
         agree_dequeue (spsc_dequeue q y) (ref_dequeue q y)"
proof -
  have "spsc_reachable_inv q"
    by (rule spsc_reachable_run [OF spsc_reachable_fresh [OF assms(1)] assms(2)])
  then show ?thesis
    by (simp add: agree_enqueue_inv agree_dequeue_inv)
qed

theorem cached_cursors_agree_witness:
  "SpscQueue 2 (0::int) =
     Inr \<lparr>buffer = [0, 0, 0], head = 0, tail = 0, head_cached = 0, tail_cached = 0\<rparr> \<and>
   run spsc_call \<lparr>buffer = [0, 0, 0::int], head = 0, tail = 0, head_cached = 0, tail_cached = 0\<rparr>
     [Enqueue 1, Enqueue 2, Dequeue 0] =
     Inr ([Enqueued True, Enqueued True, Dequeued True 1],
          \<lparr>buffer = [1, 2, 0], head = 1, tail = 2, head_cached = 0, tail_cached = 2\<rparr>) \<and>
   agree_enqueue
     (spsc_enqueue \<lparr>buffer = [1, 2, 0::int], head = 1, tail = 2, head_cached = 0, tail_cached = 2\<rparr> 9)
     (ref_enqueue \<lparr>buffer = [1, 2, 0::int], head = 1, tail = 2, head_cached = 0, tail_cached = 2\<rparr> 9) \<and>
   agree_dequeue
     (spsc_dequeue \<lparr>buffer = [1, 2, 0::int], head = 1, tail = 2, head_cached = 0, tail_cached = 2\<rparr> 5)
     (ref_dequeue \<lparr>buffer = [1, 2, 0::int], head = 1, tail = 2, head_cached = 0, tail_cached = 2\<rparr> 5)"
proof -
  have three: "replicate (unat (2 + 1 :: size_t)) (0::int) = [0, 0, 0]"
    by code_simp
  have c: "SpscQueue 2 (0::int) =
     Inr \<lparr>buffer = [0, 0, 0], head = 0, tail = 0, head_cached = 0, tail_cached = 0\<rparr>"
    unfolding SpscQueue_eq three ..
  have r: "run spsc_call \<lparr>buffer = [0, 0, 0::int], head = 0, tail = 0, head_cached = 0, tail_cached = 0\<rparr>
     [Enqueue 1, Enqueue 2, Dequeue 0] =
     Inr ([Enqueued True, Enqueued True, Dequeued True 1],
          \<lparr>buffer = [1, 2, 0], head = 1, tail = 2, head_cached = 0, tail_cached = 2\<rparr>)"
    by (simp add: spsc_call_simps spsc_enqueue_def spsc_dequeue_def spsc_publish_def
        spsc_consume_def vector_size_def)
  from cached_cursors_agree [OF c r, of 9 5] c r show ?thesis by simp
qed

text \<open>
  The agreement rests on each mirror being an earlier value of the cursor it mirrors,
  which is so in every state the queue reaches. Two states that it never reaches, with a
  mirror ahead of its cursor, show what the calls lean on: a rejection is decided on the
  real cursor, an acceptance may be decided on the mirror alone.
\<close>

lemma mirror_ahead_of_cursor:
  "spsc_enqueue \<lparr>buffer = [1, 2, 0::int], head = 0, tail = 2, head_cached = 1, tail_cached = 0\<rparr> 9 =
     Inr (True, \<lparr>buffer = [1, 2, 9], head = 0, tail = 0, head_cached = 1, tail_cached = 0\<rparr>) \<and>
   ref_enqueue \<lparr>buffer = [1, 2, 0::int], head = 0, tail = 2, head_cached = 1, tail_cached = 0\<rparr> 9 =
     Inr (False, \<lparr>buffer = [1, 2, 0], head = 0, tail = 2, head_cached = 1, tail_cached = 0\<rparr>) \<and>
   \<not> agree_enqueue
       (spsc_enqueue \<lparr>buffer = [1, 2, 0::int], head = 0, tail = 2, head_cached = 1, tail_cached = 0\<rparr> 9)
       (ref_enqueue \<lparr>buffer = [1, 2, 0::int], head = 0, tail = 2, head_cached = 1, tail_cached = 0\<rparr> 9) \<and>
   spsc_dequeue \<lparr>buffer = [1, 2, 0::int], head = 0, tail = 0, head_cached = 0, tail_cached = 2\<rparr> 5 =
     Inr (True, 1, \<lparr>buffer = [1, 2, 0], head = 1, tail = 0, head_cached = 0, tail_cached = 2\<rparr>) \<and>
   ref_dequeue \<lparr>buffer = [1, 2, 0::int], head = 0, tail = 0, head_cached = 0, tail_cached = 2\<rparr> 5 =
     Inr (False, 5, \<lparr>buffer = [1, 2, 0], head = 0, tail = 0, head_cached = 0, tail_cached = 2\<rparr>) \<and>
   \<not> agree_dequeue
       (spsc_dequeue \<lparr>buffer = [1, 2, 0::int], head = 0, tail = 0, head_cached = 0, tail_cached = 2\<rparr> 5)
       (ref_dequeue \<lparr>buffer = [1, 2, 0::int], head = 0, tail = 0, head_cached = 0, tail_cached = 2\<rparr> 5)"
  by (simp add: spsc_enqueue_def ref_enqueue_def spsc_dequeue_def ref_dequeue_def spsc_publish_def
      spsc_consume_def agree_enqueue_def agree_dequeue_def vector_size_def)

text \<open>Neither of the two states satisfies what every reachable state satisfies.\<close>

lemma mirror_ahead_unreachable:
  "\<not> spsc_reachable_inv
       \<lparr>buffer = [1, 2, 0::int], head = 0, tail = 2, head_cached = 1, tail_cached = 0\<rparr> \<and>
   \<not> spsc_reachable_inv
       \<lparr>buffer = [1, 2, 0::int], head = 0, tail = 0, head_cached = 0, tail_cached = 2\<rparr>"
  using mirror_ahead_of_cursor
    agree_enqueue_inv [of "\<lparr>buffer = [1, 2, 0::int], head = 0, tail = 2, head_cached = 1, tail_cached = 0\<rparr>" 9]
    agree_dequeue_inv [of "\<lparr>buffer = [1, 2, 0::int], head = 0, tail = 0, head_cached = 0, tail_cached = 2\<rparr>" 5]
  by blast

section \<open>The write after the exchange\<close>

text \<open>
  A call whose steps no other thread interrupts is the call of the sequential model: four
  steps take it to its result.
\<close>

lemma enqueue_alone:
  "enqueue_result
     (case_prod enqueue_step (case_prod enqueue_step (case_prod enqueue_step
        (enqueue_step q (enqueue_call x))))) = Some (mpsc_enqueue q x)"
  by (simp add: enqueue_step_def enqueue_call_def enqueue_result_def mpsc_enqueue_unfold
      compare_exchange_strong_def Let_def)

lemma dequeue_alone:
  "dequeue_result
     (case_prod dequeue_step (case_prod dequeue_step (case_prod dequeue_step
        (dequeue_step q (dequeue_call y))))) = Some (mpsc_dequeue q y)"
  by (simp add: dequeue_step_def dequeue_call_def dequeue_result_def mpsc_dequeue_def Let_def)

lemma vector_size_fresh: "vector_size (replicate (unat (C :: size_t)) z) = C"
  by (simp add: vector_size_def)

lemma one_mod_capacity:
  fixes C :: size_t
  assumes "1 \<le> C" "C + 1 \<noteq> 0"
  shows "1 mod (C + 1) = 1"
proof -
  from assms(1) have "1 \<le> unat C" by (simp add: word_le_nat_alt)
  with unat_capacity_succ [OF assms(2)] have "unat (1 :: size_t) < unat (C + 1)" by simp
  then have "(1 :: size_t) < C + 1" by (simp add: word_less_nat_alt)
  then show ?thesis by (rule mod_word_less)
qed

lemma write_only_at_write:
  "buffer (fst (enqueue_step q f)) \<noteq> buffer q \<Longrightarrow> e_pc f = E_write"
  by (cases "e_pc f") (auto simp: enqueue_step_def Let_def split: if_splits)

lemma write_after_exchange:
  "e_pc (snd (enqueue_step q f)) = E_write \<Longrightarrow>
   e_pc f = E_exchange \<and> tail q = e_t f \<and> tail (fst (enqueue_step q f)) = e_next_t f"
  by (cases "e_pc f")
    (auto simp: enqueue_step_def compare_exchange_strong_def Let_def split: if_splits)

lemma gap_state:
  fixes C :: size_t
  assumes "1 \<le> C" and "C + 1 \<noteq> 0"
  shows "interleave \<lparr>queue = \<lparr>buffer = replicate (unat (C + 1)) z, head = 0, tail = 0, count = 0\<rparr>,
                     producers = [enqueue_call x], consumer = dequeue_call y\<rparr>
        [Producer 0, Producer 0, Producer 0] = 
      \<lparr>queue = \<lparr>buffer = replicate (unat (C + 1)) z, head = 0, tail = 1, count = 0\<rparr>,
       producers = [\<lparr>e_pc = E_write, e_item = x, e_t = 0, e_next_t = 1\<rparr>], consumer = dequeue_call y\<rparr>"
proof -
  from assms(2) have pos: "0 < unat (C + 1)" by (simp add: unat_gt_0)
  note m = one_mod_capacity [OF assms]
  from assms(2) have ne: "C + 1 \<noteq> 0" .
  show ?thesis
    using pos m ne
    by (simp add: interleave_def thread_step_def enqueue_step_def 
        enqueue_call_def compare_exchange_strong_def vector_size_fresh Let_def)
qed

lemma gap_state_consumed:
  fixes C :: size_t
  assumes "1 \<le> C" and "C + 1 \<noteq> 0"
  shows "foldl thread_step
      \<lparr>queue = \<lparr>buffer = replicate (unat (C + 1)) z, head = 0, tail = 1, count = 0\<rparr>,
       producers = [\<lparr>e_pc = E_write, e_item = x, e_t = 0, e_next_t = 1\<rparr>], consumer = dequeue_call y\<rparr>
        [Consumer, Consumer, Consumer, Consumer] = 
      \<lparr>queue = \<lparr>buffer = replicate (unat (C + 1)) z, head = 1, tail = 1, count = 0\<rparr>,
       producers = [\<lparr>e_pc = E_write, e_item = x, e_t = 0, e_next_t = 1\<rparr>],
       consumer = \<lparr>d_pc = D_return True, d_item = z, d_h = 0\<rparr>\<rparr>"
proof -
  from assms(2) have pos: "0 < unat (C + 1)" by (simp add: unat_gt_0)
  note m = one_mod_capacity [OF assms]
  from assms(2) have ne: "C + 1 \<noteq> 0" .
  show ?thesis
    using pos m ne
    by (simp add: thread_step_def dequeue_step_def dequeue_call_def vector_size_fresh Let_def)
qed

lemma gap_state_written:
  fixes C :: size_t
  assumes "C + 1 \<noteq> 0"
  shows "thread_step
      \<lparr>queue = \<lparr>buffer = replicate (unat (C + 1)) z, head = 1, tail = 1, count = 0\<rparr>,
       producers = [\<lparr>e_pc = E_write, e_item = x, e_t = 0, e_next_t = 1\<rparr>],
       consumer = \<lparr>d_pc = D_return True, d_item = z, d_h = 0\<rparr>\<rparr> (Producer 0) =
      \<lparr>queue = \<lparr>buffer = (replicate (unat (C + 1)) z)[0 := x], head = 1, tail = 1, count = 0\<rparr>,
       producers = [\<lparr>e_pc = E_return True, e_item = x, e_t = 0, e_next_t = 1\<rparr>],
       consumer = \<lparr>d_pc = D_return True, d_item = z, d_h = 0\<rparr>\<rparr>"
proof -
  from assms have pos: "0 < unat (C + 1)" by (simp add: unat_gt_0)
  then show ?thesis
    by (simp add: thread_step_def enqueue_step_def)
qed

lemma interleave_append: "interleave s (as @ bs) = interleave (interleave s as) bs"
  by (simp add: interleave_def)

lemma gap_run:
  fixes C :: size_t
  assumes "1 \<le> C" and "C + 1 \<noteq> 0"
  shows "\<exists>q0 s s'. MpscQueue C z = Inr q0 \<and>
      interleave \<lparr>queue = q0, producers = [enqueue_call x], consumer = dequeue_call y\<rparr>
        [Producer 0, Producer 0, Producer 0, Consumer, Consumer, Consumer, Consumer] = s \<and>
      e_pc (producers s ! 0) = E_write \<and> tail (queue s) = 1 \<and> buffer (queue s) = buffer q0 \<and>
      dequeue_result (queue s, consumer s) = Some (Inr (True, z, queue s)) \<and>
      thread_step s (Producer 0) = s' \<and>
      enqueue_result (queue s', producers s' ! 0) = Some (Inr (True, queue s')) \<and>
      buffer (queue s') ! 0 = x \<and> mpsc_is_empty (queue s') \<and> consumer s' = consumer s"
proof -
  let ?q0 = "\<lparr>buffer = replicate (unat (C + 1)) z, head = 0, tail = 0, count = 0\<rparr>"
  let ?s = "\<lparr>queue = \<lparr>buffer = replicate (unat (C + 1)) z, head = 1, tail = 1, count = 0\<rparr>,
       producers = [\<lparr>e_pc = E_write, e_item = x, e_t = 0, e_next_t = 1\<rparr>],
       consumer = \<lparr>d_pc = D_return True, d_item = z, d_h = 0\<rparr>\<rparr>"
  let ?s' = "\<lparr>queue = \<lparr>buffer = (replicate (unat (C + 1)) z)[0 := x], head = 1, tail = 1, count = 0\<rparr>,
       producers = [\<lparr>e_pc = E_return True, e_item = x, e_t = 0, e_next_t = 1\<rparr>],
       consumer = \<lparr>d_pc = D_return True, d_item = z, d_h = 0\<rparr>\<rparr>"
  from assms(2) have pos: "0 < unat (C + 1)" by (simp add: unat_gt_0)
  have "interleave \<lparr>queue = ?q0, producers = [enqueue_call x], consumer = dequeue_call y\<rparr>
        ([Producer 0, Producer 0, Producer 0] @ [Consumer, Consumer, Consumer, Consumer]) = ?s"
    unfolding interleave_append gap_state [OF assms]
    unfolding interleave_def by (rule gap_state_consumed [OF assms])
  then have run: "interleave \<lparr>queue = ?q0, producers = [enqueue_call x], consumer = dequeue_call y\<rparr>
        [Producer 0, Producer 0, Producer 0, Consumer, Consumer, Consumer, Consumer] = ?s"
    by simp
  note last = gap_state_written [OF assms(2), of z x]
  have "MpscQueue C z = Inr ?q0 \<and>
      interleave \<lparr>queue = ?q0, producers = [enqueue_call x], consumer = dequeue_call y\<rparr>
        [Producer 0, Producer 0, Producer 0, Consumer, Consumer, Consumer, Consumer] = ?s \<and>
      e_pc (producers ?s ! 0) = E_write \<and> tail (queue ?s) = 1 \<and> buffer (queue ?s) = buffer ?q0 \<and>
      dequeue_result (queue ?s, consumer ?s) = Some (Inr (True, z, queue ?s)) \<and>
      thread_step ?s (Producer 0) = ?s' \<and>
      enqueue_result (queue ?s', producers ?s' ! 0) = Some (Inr (True, queue ?s')) \<and>
      buffer (queue ?s') ! 0 = x \<and> mpsc_is_empty (queue ?s') \<and> consumer ?s' = consumer ?s"
    unfolding run last MpscQueue_eq using pos
    by (simp add: dequeue_result_def enqueue_result_def mpsc_is_empty_def)
  then show ?thesis by blast
qed

text \<open>
  Claim C9. A producer's step changes the buffer only at the slot write, and a producer
  gets to the slot write only by an exchange that succeeded and has already moved the
  tail. So the consumer can see the new tail before the slot is written: on a fresh queue
  of any capacity \<open>C \<ge> 1\<close> (with \<open>C + 1\<close> not wrapping), let one producer run
  \<^verbatim>\<open>enqueue(x)\<close> up to and including its exchange, then let the consumer run a whole
  \<^verbatim>\<open>dequeue\<close>. The dequeue returns true and delivers \<open>z\<close>, the value the slot was
  constructed with, while the producer still stands before its write and the buffer is
  untouched. When the producer then writes \<open>x\<close> and returns true, head and tail are equal:
  \<open>x\<close> is in the buffer and will not be delivered. Steps are interleaved in one order,
  each visible at once; the gap needs no weaker memory ordering than that.
\<close>

theorem mpsc_visibility_gap:
  fixes C :: size_t
  assumes "1 \<le> C" and "C + 1 \<noteq> 0"
  shows "(buffer (fst (enqueue_step qa fa)) \<noteq> buffer qa \<longrightarrow> e_pc fa = E_write) \<and>
     (e_pc (snd (enqueue_step qb fb)) = E_write \<longrightarrow>
        e_pc fb = E_exchange \<and> tail qb = e_t fb \<and> tail (fst (enqueue_step qb fb)) = e_next_t fb) \<and>
     (\<exists>q0 s s'. MpscQueue C z = Inr q0 \<and>
        interleave \<lparr>queue = q0, producers = [enqueue_call x], consumer = dequeue_call y\<rparr>
          [Producer 0, Producer 0, Producer 0, Consumer, Consumer, Consumer, Consumer] = s \<and>
        e_pc (producers s ! 0) = E_write \<and> tail (queue s) = 1 \<and> buffer (queue s) = buffer q0 \<and>
        dequeue_result (queue s, consumer s) = Some (Inr (True, z, queue s)) \<and>
        thread_step s (Producer 0) = s' \<and>
        enqueue_result (queue s', producers s' ! 0) = Some (Inr (True, queue s')) \<and>
        buffer (queue s') ! 0 = x \<and> mpsc_is_empty (queue s') \<and> consumer s' = consumer s)"
  using write_only_at_write [of qa fa] write_after_exchange [of qb fb] gap_run [OF assms, of z x y]
  by blast

theorem mpsc_visibility_gap_witness:
  "(1::size_t) \<le> 1 \<and> (1::size_t) + 1 \<noteq> 0 \<and>
   buffer (fst (enqueue_step \<lparr>buffer = [0, 0::int], head = 0, tail = 1, count = 0\<rparr>
                  \<lparr>e_pc = E_write, e_item = 7, e_t = 0, e_next_t = 1\<rparr>))
     \<noteq> buffer \<lparr>buffer = [0, 0::int], head = 0, tail = 1, count = 0\<rparr> \<and>
   e_pc \<lparr>e_pc = E_write, e_item = 7::int, e_t = 0, e_next_t = 1\<rparr> = E_write \<and>
   e_pc (snd (enqueue_step \<lparr>buffer = [0, 0::int], head = 0, tail = 0, count = 0\<rparr>
                \<lparr>e_pc = E_exchange, e_item = 7, e_t = 0, e_next_t = 1\<rparr>)) = E_write \<and>
   tail (fst (enqueue_step \<lparr>buffer = [0, 0::int], head = 0, tail = 0, count = 0\<rparr>
                \<lparr>e_pc = E_exchange, e_item = 7, e_t = 0, e_next_t = 1\<rparr>)) = 1 \<and>
   (\<exists>q0 s s'. MpscQueue 1 (0::int) = Inr q0 \<and>
      interleave \<lparr>queue = q0, producers = [enqueue_call 7], consumer = dequeue_call 99\<rparr>
        [Producer 0, Producer 0, Producer 0, Consumer, Consumer, Consumer, Consumer] = s \<and>
      e_pc (producers s ! 0) = E_write \<and> tail (queue s) = 1 \<and> buffer (queue s) = buffer q0 \<and>
      dequeue_result (queue s, consumer s) = Some (Inr (True, 0, queue s)) \<and>
      thread_step s (Producer 0) = s' \<and>
      enqueue_result (queue s', producers s' ! 0) = Some (Inr (True, queue s')) \<and>
      buffer (queue s') ! 0 = 7 \<and> mpsc_is_empty (queue s') \<and> consumer s' = consumer s)"
proof -
  have h: "(1::size_t) \<le> 1" "(1::size_t) + 1 \<noteq> 0" by simp_all
  have a: "buffer (fst (enqueue_step \<lparr>buffer = [0, 0::int], head = 0, tail = 1, count = 0\<rparr>
                  \<lparr>e_pc = E_write, e_item = 7, e_t = 0, e_next_t = 1\<rparr>))
     \<noteq> buffer \<lparr>buffer = [0, 0::int], head = 0, tail = 1, count = 0\<rparr>"
    by (simp add: enqueue_step_def)
  have b: "e_pc (snd (enqueue_step \<lparr>buffer = [0, 0::int], head = 0, tail = 0, count = 0\<rparr>
                \<lparr>e_pc = E_exchange, e_item = 7, e_t = 0, e_next_t = 1\<rparr>)) = E_write"
    by (simp add: enqueue_step_def compare_exchange_strong_def)
  have c: "e_pc \<lparr>e_pc = E_write, e_item = 7::int, e_t = 0, e_next_t = 1\<rparr> = E_write"
    by simp
  note gap = mpsc_visibility_gap [OF h,
      where qa = "\<lparr>buffer = [0, 0::int], head = 0, tail = 1, count = 0\<rparr>"
        and fa = "\<lparr>e_pc = E_write, e_item = 7::int, e_t = 0, e_next_t = 1\<rparr>"
        and qb = "\<lparr>buffer = [0, 0::int], head = 0, tail = 0, count = 0\<rparr>"
        and fb = "\<lparr>e_pc = E_exchange, e_item = 7::int, e_t = 0, e_next_t = 1\<rparr>"
        and z = "0::int" and x = 7 and y = 99]
  from gap b have d: "tail (fst (enqueue_step \<lparr>buffer = [0, 0::int], head = 0, tail = 0, count = 0\<rparr>
                \<lparr>e_pc = E_exchange, e_item = 7, e_t = 0, e_next_t = 1\<rparr>)) = 1"
    by simp
  from h a b c d gap show ?thesis by blast
qed

section \<open>Capacity validation\<close>

text \<open>
  Claim C2 asks that construction with an unusable capacity (0, or a non-positive value,
  which arrives in the \<^verbatim>\<open>size_t\<close> parameter as a value from \<open>2 ^ 64 - 1\<close> downwards)
  fails with an invalid-capacity error. The constructors do not: the guard compares an
  unsigned sum with \<open>0\<close>. At capacity \<open>0\<close> both return a queue over a one-slot buffer, at
  capacity \<open>2 ^ 64 - 1\<close> (the value of \<^verbatim>\<open>(size_t)-1\<close>) a queue over an empty buffer, on which
  the first enqueue divides by zero.
\<close>

theorem unusable_capacity_accepted:
  "SpscQueue 0 z = Inr \<lparr>buffer = [z], head = 0, tail = 0, head_cached = 0, tail_cached = 0\<rparr> \<and>
   MpscQueue 0 z = Inr \<lparr>buffer = [z], head = 0, tail = 0, count = 0\<rparr> \<and>
   SpscQueue (- 1) z = Inr \<lparr>buffer = [], head = 0, tail = 0, head_cached = 0, tail_cached = 0\<rparr> \<and>
   MpscQueue (- 1) z = Inr \<lparr>buffer = [], head = 0, tail = 0, count = 0\<rparr> \<and>
   (- 1 :: size_t) = 18446744073709551615 \<and>
   spsc_enqueue \<lparr>buffer = [], head = 0, tail = 0, head_cached = 0, tail_cached = 0\<rparr> x
     = Inl DivisionByZero \<and>
   mpsc_enqueue \<lparr>buffer = [], head = 0, tail = 0, count = 0\<rparr> x = Inl DivisionByZero"
  by (simp add: SpscQueue_eq MpscQueue_eq spsc_enqueue_def mpsc_enqueue_unfold vector_size_def)

section \<open>Capacity 0\<close>

lemma spsc_capacity_0_call:
  "spsc_call \<lparr>buffer = [z], head = 0, tail = 0, head_cached = 0, tail_cached = 0\<rparr> c =
     Inr (rejected c, \<lparr>buffer = [z], head = 0, tail = 0, head_cached = 0, tail_cached = 0\<rparr>)"
  by (cases c) (simp_all add: spsc_call_def spsc_enqueue_def spsc_dequeue_def vector_size_def)

lemma mpsc_capacity_0_call:
  "mpsc_call \<lparr>buffer = [z], head = 0, tail = 0, count = 0\<rparr> c =
     Inr (rejected c, \<lparr>buffer = [z], head = 0, tail = 0, count = 0\<rparr>)"
  by (cases c) (simp_all add: mpsc_call_def mpsc_enqueue_unfold mpsc_dequeue_def vector_size_def)

lemma spsc_capacity_0_run:
  "run spsc_call \<lparr>buffer = [z], head = 0, tail = 0, head_cached = 0, tail_cached = 0\<rparr> cs =
     Inr (map rejected cs, \<lparr>buffer = [z], head = 0, tail = 0, head_cached = 0, tail_cached = 0\<rparr>)"
  by (induction cs) (simp_all add: spsc_capacity_0_call)

lemma mpsc_capacity_0_run:
  "run mpsc_call \<lparr>buffer = [z], head = 0, tail = 0, count = 0\<rparr> cs =
     Inr (map rejected cs, \<lparr>buffer = [z], head = 0, tail = 0, count = 0\<rparr>)"
  by (induction cs) (simp_all add: mpsc_capacity_0_call)

text \<open>
  Claim C10. Constructing either queue with capacity 0 does not fail. The instance has a
  buffer of length 1; every enqueue and every dequeue on it returns false and leaves it as
  it is, whatever the sequence of calls, so \<^verbatim>\<open>is_empty()\<close> is true throughout.
\<close>

theorem capacity_0_queue:
  "(\<exists>q. SpscQueue 0 z = Inr q \<and> length (buffer q) = 1 \<and> spsc_is_empty q \<and>
        (\<forall>x. spsc_enqueue q x = Inr (False, q)) \<and>
        (\<forall>y. spsc_dequeue q y = Inr (False, y, q)) \<and>
        (\<forall>cs. run spsc_call q cs = Inr (map rejected cs, q))) \<and>
   (\<exists>q. MpscQueue 0 z = Inr q \<and> length (buffer q) = 1 \<and> mpsc_is_empty q \<and>
        (\<forall>x. mpsc_enqueue q x = Inr (False, q)) \<and>
        (\<forall>y. mpsc_dequeue q y = Inr (False, y, q)) \<and>
        (\<forall>cs. run mpsc_call q cs = Inr (map rejected cs, q)))"
proof -
  have "spsc_enqueue \<lparr>buffer = [z], head = 0, tail = 0, head_cached = 0, tail_cached = 0\<rparr> x =
      Inr (False, \<lparr>buffer = [z], head = 0, tail = 0, head_cached = 0, tail_cached = 0\<rparr>)" for x
    by (simp add: spsc_enqueue_def vector_size_def)
  moreover have "spsc_dequeue \<lparr>buffer = [z], head = 0, tail = 0, head_cached = 0, tail_cached = 0\<rparr> y =
      Inr (False, y, \<lparr>buffer = [z], head = 0, tail = 0, head_cached = 0, tail_cached = 0\<rparr>)" for y
    by (simp add: spsc_dequeue_def)
  moreover have "mpsc_enqueue \<lparr>buffer = [z], head = 0, tail = 0, count = 0\<rparr> x =
      Inr (False, \<lparr>buffer = [z], head = 0, tail = 0, count = 0\<rparr>)" for x
    by (simp add: mpsc_enqueue_unfold vector_size_def)
  moreover have "mpsc_dequeue \<lparr>buffer = [z], head = 0, tail = 0, count = 0\<rparr> y =
      Inr (False, y, \<lparr>buffer = [z], head = 0, tail = 0, count = 0\<rparr>)" for y
    by (simp add: mpsc_dequeue_def)
  ultimately show ?thesis
    by (simp add: SpscQueue_eq MpscQueue_eq spsc_is_empty_def mpsc_is_empty_def
        spsc_capacity_0_run mpsc_capacity_0_run)
qed

end
